theory Spec2Isabelle
  imports Main "HOL-Library.Sublist"
begin

section \<open>Strings\<close>

text \<open>
  The script \<^verbatim>\<open>cleanup_script.py\<close> rewrites Dart sources with regular expressions.
  A text is a \<^typ>\<open>string\<close>. Every literal of the script is ASCII and every character
  class is the complement of one ASCII character, so matching UTF-8 bytes and matching
  code points give the same result. A file is modelled by the text that Python's text
  I/O reads from it and writes to it.
\<close>

definition sq :: char where
  "sq = CHR 0x27"

definition dq :: char where
  "dq = CHR 0x22"

definition nl :: char where
  "nl = CHR 0x0A"

definition backslash :: char where
  "backslash = CHR 0x5C"

text \<open>\<^verbatim>\<open>s.startswith(l)\<close>.\<close>

definition startswith :: "string \<Rightarrow> string \<Rightarrow> bool" where
  "startswith s l = (take (length l) s = l)"

text \<open>\<^verbatim>\<open>sub in s\<close>: \<open>sub\<close> occurs in \<open>s\<close> as a contiguous piece.\<close>

fun str_contains :: "string \<Rightarrow> string \<Rightarrow> bool" where
  "str_contains sub [] = (sub = [])"
| "str_contains sub (c # cs) = (startswith (c # cs) sub \<or> str_contains sub cs)"

text \<open>
  \<^verbatim>\<open>s.replace(old, new)\<close>: every non-overlapping occurrence of \<open>old\<close>, from the left.
  With an empty \<open>old\<close> Python puts \<open>new\<close> before every character and at the end.
\<close>

function str_replace :: "string \<Rightarrow> string \<Rightarrow> string \<Rightarrow> string" where
  "str_replace old new s =
     (if old = [] then new @ concat (map (\<lambda>c. c # new) s)
      else (case s of
              [] \<Rightarrow> []
            | c # cs \<Rightarrow>
                if startswith s old then new @ str_replace old new (drop (length old) s)
                else c # str_replace old new cs))"
  by pat_completeness auto
termination
  by (relation "measure (\<lambda>(old, new, s). length s)") auto

section \<open>Regular expressions of the script\<close>

text \<open>
  The eight patterns of the script are sequences of three kinds of item: a literal, a
  greedy \<^verbatim>\<open>[^c]+\<close> and a greedy \<^verbatim>\<open>[^c]*\<close>. Each item carries the number of the
  capture group it lies in (0 for none); the text of a group is the concatenation of
  the texts matched by its items.
\<close>

datatype item = Lit string | Plus char | Star char

type_synonym pattern = "(item \<times> nat) list"

type_synonym pieces = "(nat \<times> string) list"

text \<open>
  Backtracking over a greedy repetition: the longest run is tried first, then every
  shorter one down to the minimum \<open>lo\<close>; the first length at which the rest of the
  pattern matches wins.
\<close>

primrec first_down :: "(nat \<Rightarrow> 'a option) \<Rightarrow> nat \<Rightarrow> nat \<Rightarrow> 'a option" where
  "first_down f lo 0 = (if lo = 0 then f 0 else None)"
| "first_down f lo (Suc n) =
     (if Suc n < lo then None
      else (case f (Suc n) of Some r \<Rightarrow> Some r | None \<Rightarrow> first_down f lo n))"

definition run_length :: "char \<Rightarrow> string \<Rightarrow> nat" where
  "run_length c s = length (takeWhile (\<lambda>x. x \<noteq> c) s)"

text \<open>
  \<open>match_here pat s\<close> is the match of \<open>pat\<close> anchored at the start of \<open>s\<close>, as
  Python's backtracking matcher finds it: the matched pieces and the unmatched rest.
\<close>

fun match_here :: "pattern \<Rightarrow> string \<Rightarrow> (pieces \<times> string) option" where
  "match_here [] s = Some ([], s)"
| "match_here ((Lit l, g) # ps) s =
     (if startswith s l
      then map_option (\<lambda>(ms, r). ((g, l) # ms, r)) (match_here ps (drop (length l) s))
      else None)"
| "match_here ((Plus c, g) # ps) s =
     first_down
       (\<lambda>n. map_option (\<lambda>(ms, r). ((g, take n s) # ms, r)) (match_here ps (drop n s)))
       1 (run_length c s)"
| "match_here ((Star c, g) # ps) s =
     first_down
       (\<lambda>n. map_option (\<lambda>(ms, r). ((g, take n s) # ms, r)) (match_here ps (drop n s)))
       0 (run_length c s)"

definition group :: "nat \<Rightarrow> pieces \<Rightarrow> string" where
  "group n ms = concat (map snd (filter (\<lambda>m. fst m = n) ms))"

text \<open>A replacement template: literal text and group references \<^verbatim>\<open>\1\<close>, \<^verbatim>\<open>\2\<close>.\<close>

datatype tpiece = TLit string | TGroup nat

fun expand :: "tpiece list \<Rightarrow> pieces \<Rightarrow> string" where
  "expand [] ms = []"
| "expand (TLit l # ts) ms = l @ expand ts ms"
| "expand (TGroup n # ts) ms = group n ms @ expand ts ms"

text \<open>
  \<^verbatim>\<open>re.sub(pat, repl, s)\<close>: scan from the left; at a match emit the replacement and go
  on after the match, otherwise keep the character and move one position on. Every
  pattern of the script starts with a literal, so a match is never empty; the model
  steps over one character after an empty match, as Python does.
\<close>

function re_sub :: "pattern \<Rightarrow> tpiece list \<Rightarrow> string \<Rightarrow> string" where
  "re_sub pat repl s =
     (case match_here pat s of
        Some (ms, rest) \<Rightarrow>
          if length rest < length s then expand repl ms @ re_sub pat repl rest
          else (case s of
                  [] \<Rightarrow> expand repl ms
                | c # cs \<Rightarrow> expand repl ms @ c # re_sub pat repl cs)
      | None \<Rightarrow> (case s of [] \<Rightarrow> [] | c # cs \<Rightarrow> c # re_sub pat repl cs))"
  by pat_completeness auto
termination
  by (relation "measure (\<lambda>(pat, repl, s). length s)") auto

text \<open>
  \<^verbatim>\<open>re.search(pat, s)\<close>: the leftmost match, as the text before it, the matched pieces
  and the text after it.
\<close>

fun re_search :: "pattern \<Rightarrow> string \<Rightarrow> (string \<times> pieces \<times> string) option" where
  "re_search pat [] =
     (case match_here pat [] of
        Some (ms, rest) \<Rightarrow> Some ([], ms, rest)
      | None \<Rightarrow> None)"
| "re_search pat (c # cs) =
     (case match_here pat (c # cs) of
        Some (ms, rest) \<Rightarrow> Some ([], ms, rest)
      | None \<Rightarrow> map_option (\<lambda>(pre, ms, rest). (c # pre, ms, rest)) (re_search pat cs))"

text \<open>\<^verbatim>\<open>m.group(0)\<close>: the whole matched text.\<close>

definition group0 :: "pieces \<Rightarrow> string" where
  "group0 ms = concat (map snd ms)"

subsection \<open>The seven print patterns and their replacement templates\<close>

definition print_debug :: string where
  "print_debug = ''print('DEBUG: ''"

definition print_dq :: string where
  "print_dq = ''print('' @ [dq]"

definition close_sq :: string where
  "close_sq = sq # '');''"

definition close_dq :: string where
  "close_dq = dq # '');''"

text \<open>\<^verbatim>\<open>print\('DEBUG: ([^']+)'\);\<close>\<close>

definition pat_a :: pattern where
  "pat_a = [(Lit print_debug, 0), (Plus sq, 1), (Lit close_sq, 0)]"

text \<open>\<^verbatim>\<open>print\('DEBUG: ([^:]+): \$([^']+)'\);\<close>\<close>

definition pat_b :: pattern where
  "pat_b = [(Lit print_debug, 0), (Plus CHR '':'', 1), (Lit '': $'', 0), (Plus sq, 2),
            (Lit close_sq, 0)]"

text \<open>\<^verbatim>\<open>print\('DEBUG: Error in ([^:]+): \$e'\);\<close>\<close>

definition pat_c :: pattern where
  "pat_c = [(Lit (print_debug @ ''Error in ''), 0), (Plus CHR '':'', 1),
            (Lit ('': $e'' @ close_sq), 0)]"

text \<open>\<^verbatim>\<open>print\('DEBUG: ([^:]+Error[^:]*): \$e'\);\<close>\<close>

definition pat_d :: pattern where
  "pat_d = [(Lit print_debug, 0), (Plus CHR '':'', 1), (Lit ''Error'', 1), (Star CHR '':'', 1),
            (Lit ('': $e'' @ close_sq), 0)]"

text \<open>\<^verbatim>\<open>print\("([^:]+Error[^:]*): \$e"\);\<close>\<close>

definition pat_e :: pattern where
  "pat_e = [(Lit print_dq, 0), (Plus CHR '':'', 1), (Lit ''Error'', 1), (Star CHR '':'', 1),
            (Lit ('': $e'' @ close_dq), 0)]"

text \<open>\<^verbatim>\<open>print\("([^"]+)"\);\<close>\<close>

definition pat_f :: pattern where
  "pat_f = [(Lit print_dq, 0), (Plus dq, 1), (Lit close_dq, 0)]"

text \<open>\<^verbatim>\<open>print\("([^:]+): \$([^"]+)"\);\<close>\<close>

definition pat_g :: pattern where
  "pat_g = [(Lit print_dq, 0), (Plus CHR '':'', 1), (Lit '': $'', 0), (Plus dq, 2),
            (Lit close_dq, 0)]"

text \<open>
  The templates are built with \<^verbatim>\<open>.format(log_tag)\<close>. With a tag that has no backslash
  the template parser of \<^verbatim>\<open>re\<close> reads the tag as literal text, which is what the
  definitions below say; a tag with a backslash is outside this model.
\<close>

definition logger_call :: "string \<Rightarrow> string \<Rightarrow> string" where
  "logger_call level log_tag = ''Logger.'' @ level @ ''('' @ [sq] @ log_tag @ [sq] @ '', '' @ [sq]"

text \<open>\<^verbatim>\<open>Logger.d('{}', '\1');\<close>\<close>

definition tmpl_d :: "string \<Rightarrow> tpiece list" where
  "tmpl_d log_tag = [TLit (logger_call ''d'' log_tag), TGroup 1, TLit close_sq]"

text \<open>\<^verbatim>\<open>Logger.d('{}', '\1: $\2');\<close>\<close>

definition tmpl_d_var :: "string \<Rightarrow> tpiece list" where
  "tmpl_d_var log_tag =
     [TLit (logger_call ''d'' log_tag), TGroup 1, TLit '': $'', TGroup 2, TLit close_sq]"

text \<open>\<^verbatim>\<open>Logger.e('{}', 'Error in \1', e);\<close>\<close>

definition tmpl_e_in :: "string \<Rightarrow> tpiece list" where
  "tmpl_e_in log_tag =
     [TLit (logger_call ''e'' log_tag @ ''Error in ''), TGroup 1, TLit (sq # '', e);'')]"

text \<open>\<^verbatim>\<open>Logger.e('{}', '\1', e);\<close>\<close>

definition tmpl_e :: "string \<Rightarrow> tpiece list" where
  "tmpl_e log_tag = [TLit (logger_call ''e'' log_tag), TGroup 1, TLit (sq # '', e);'')]"

text \<open>The seven rules in the order of the script.\<close>

definition rules :: "string \<Rightarrow> (pattern \<times> tpiece list) list" where
  "rules log_tag =
     [(pat_a, tmpl_d log_tag),
      (pat_b, tmpl_d_var log_tag),
      (pat_c, tmpl_e_in log_tag),
      (pat_d, tmpl_e log_tag),
      (pat_e, tmpl_e log_tag),
      (pat_f, tmpl_d log_tag),
      (pat_g, tmpl_d_var log_tag)]"

text \<open>
  The text that \<^verbatim>\<open>replace_print_with_logger\<close> writes back: each \<^verbatim>\<open>re.sub\<close> works on
  the result of the one before.
\<close>

definition apply_rules :: "(pattern \<times> tpiece list) list \<Rightarrow> string \<Rightarrow> string" where
  "apply_rules rs content = foldl (\<lambda>text (pat, repl). re_sub pat repl text) content rs"

definition replace_prints :: "string \<Rightarrow> string \<Rightarrow> string" where
  "replace_prints log_tag content = apply_rules (rules log_tag) content"

section \<open>Tag derivation\<close>

text \<open>
  \<^verbatim>\<open>os.path\<close> is taken to be \<^verbatim>\<open>posixpath\<close>. \<^verbatim>\<open>str.capitalize\<close> is modelled on ASCII
  letters; other characters are left as they are.
\<close>

text \<open>\<^verbatim>\<open>s.rfind(c)\<close>: the last index of \<open>c\<close>, or -1.\<close>

definition rfind :: "char \<Rightarrow> string \<Rightarrow> int" where
  "rfind c s =
     (if c \<in> set s
      then int (length s) - 1 - int (length (takeWhile (\<lambda>x. x \<noteq> c) (rev s)))
      else - 1)"

definition basename :: "string \<Rightarrow> string" where
  "basename p = drop (nat (rfind CHR ''/'' p + 1)) p"

text \<open>
  \<^verbatim>\<open>os.path.splitext\<close>: split at the last dot, unless that dot is not after the last
  slash or only dots stand between the slash and it.
\<close>

definition splitext :: "string \<Rightarrow> string \<times> string" where
  "splitext p =
     (let sepIndex = rfind CHR ''/'' p;
          dotIndex = rfind CHR ''.'' p
      in if dotIndex > sepIndex
            \<and> list_ex (\<lambda>c. c \<noteq> CHR ''.'')
                 (take (nat (dotIndex - sepIndex - 1)) (drop (nat (sepIndex + 1)) p))
         then (take (nat dotIndex) p, drop (nat dotIndex) p)
         else (p, []))"

text \<open>\<^verbatim>\<open>s.split(sep)\<close> for a separator of one character.\<close>

fun split_char :: "char \<Rightarrow> string \<Rightarrow> string list" where
  "split_char sep [] = [[]]"
| "split_char sep (c # cs) =
     (if c = sep then [] # split_char sep cs
      else (case split_char sep cs of
              [] \<Rightarrow> [[c]]
            | w # ws \<Rightarrow> (c # w) # ws))"

definition lower_letters :: string where
  "lower_letters = ''abcdefghijklmnopqrstuvwxyz''"

definition upper_letters :: string where
  "upper_letters = ''ABCDEFGHIJKLMNOPQRSTUVWXYZ''"

definition ascii_upper :: "char \<Rightarrow> char" where
  "ascii_upper c =
     (case map_of (zip lower_letters upper_letters) c of None \<Rightarrow> c | Some u \<Rightarrow> u)"

definition ascii_lower :: "char \<Rightarrow> char" where
  "ascii_lower c =
     (case map_of (zip upper_letters lower_letters) c of None \<Rightarrow> c | Some l \<Rightarrow> l)"

definition capitalize :: "string \<Rightarrow> string" where
  "capitalize w = (case w of [] \<Rightarrow> [] | c # cs \<Rightarrow> ascii_upper c # map ascii_lower cs)"

definition get_log_tag_from_path :: "string \<Rightarrow> string" where
  "get_log_tag_from_path file_path =
     (let file_name = basename file_path;
          class_name = fst (splitext file_name);
          words = split_char CHR ''_'' class_name
      in concat (map capitalize words))"

section \<open>Files\<close>

text \<open>
  The state of a run: the text files on disk, by path, and the lines printed so far.
  Opening a path that is not there raises \<^verbatim>\<open>FileNotFoundError\<close>.
\<close>

record state =
  files :: "string \<rightharpoonup> string"
  stdout :: "string list"

datatype error = FileNotFoundError string

definition added_notice :: string where
  "added_notice = ''Added Logger import to ''"

definition replaced_notice :: string where
  "replaced_notice = ''Replaced print statements in ''"

definition logger_import :: string where
  "logger_import = ''import 'package:yetuga/utils/logger.dart';''"

text \<open>\<^verbatim>\<open>(import [^;]+;)\n\<close>\<close>

definition pat_import :: pattern where
  "pat_import = [(Lit ''import '', 1), (Plus CHR '';'', 1), (Lit '';'', 1), (Lit [nl], 0)]"

text \<open>
  The text that \<^verbatim>\<open>add_logger_import\<close> writes, or \<open>None\<close> when it writes nothing.
\<close>

definition import_insertion :: "string \<Rightarrow> string option" where
  "import_insertion content =
     (if \<not> str_contains logger_import content
      then (case re_search pat_import content of
              Some (pre, ms, rest) \<Rightarrow>
                (let last_import = group0 ms
                 in Some (str_replace last_import (last_import @ logger_import @ [nl]) content))
            | None \<Rightarrow> None)
      else None)"

definition add_logger_import :: "string \<Rightarrow> state \<Rightarrow> error + state" where
  "add_logger_import file_path st =
     (case files st file_path of
        None \<Rightarrow> Inl (FileNotFoundError file_path)
      | Some content \<Rightarrow>
          (case import_insertion content of
             None \<Rightarrow> Inr st
           | Some content' \<Rightarrow>
               Inr (st\<lparr>files := (files st)(file_path \<mapsto> content'),
                       stdout := stdout st @ [added_notice @ file_path]\<rparr>)))"

definition replace_print_with_logger :: "string \<Rightarrow> string \<Rightarrow> state \<Rightarrow> error + state" where
  "replace_print_with_logger file_path log_tag st =
     (case files st file_path of
        None \<Rightarrow> Inl (FileNotFoundError file_path)
      | Some content \<Rightarrow>
          Inr (st\<lparr>files := (files st)(file_path \<mapsto> replace_prints log_tag content),
                  stdout := stdout st @ [replaced_notice @ file_path]\<rparr>))"

definition process_file :: "string \<Rightarrow> state \<Rightarrow> error + state" where
  "process_file file_path st =
     (let log_tag = get_log_tag_from_path file_path
      in case add_logger_import file_path st of
           Inl e \<Rightarrow> Inl e
         | Inr st' \<Rightarrow> replace_print_with_logger file_path log_tag st')"

text \<open>What one call of \<^verbatim>\<open>process_file\<close> does to the text of the file.\<close>

definition after_import :: "string \<Rightarrow> string" where
  "after_import content =
     (case import_insertion content of None \<Rightarrow> content | Some content' \<Rightarrow> content')"

definition process_content :: "string \<Rightarrow> string \<Rightarrow> string" where
  "process_content log_tag content = replace_prints log_tag (after_import content)"

section \<open>The file set\<close>

definition key_files :: "string list" where
  "key_files =
     [''lib/screens/onboarding/onboarding_screen.dart'',
      ''lib/screens/onboarding/steps/display_name_step.dart'',
      ''lib/services/firebase_service.dart'',
      ''lib/main.dart'',
      ''lib/models/onboarding_data.dart'',
      ''lib/providers/auth_provider.dart'',
      ''lib/providers/onboarding_provider.dart'',
      ''lib/screens/auth/auth_screen.dart'',
      ''lib/screens/auth/email_signin_screen.dart'',
      ''lib/services/storage_service.dart'']"

definition logger_file :: string where
  "logger_file = ''lib/utils/logger.dart''"

text \<open>The first loop: \<^verbatim>\<open>os.path.exists\<close> guards each priority file.\<close>

fun process_key_files :: "string list \<Rightarrow> state \<Rightarrow> error + state" where
  "process_key_files [] st = Inr st"
| "process_key_files (file_path # ps) st =
     (if file_path \<in> dom (files st)
      then (case process_file file_path st of
              Inl e \<Rightarrow> Inl e
            | Inr st' \<Rightarrow> process_key_files ps st')
      else process_key_files ps st)"

text \<open>
  The second loop, over the result \<open>dart_files\<close> of
  \<^verbatim>\<open>glob.glob('lib/**/*.dart', recursive=True)\<close>, which is a parameter of the model: the
  first loop creates and removes no file, so the result does not depend on it.
\<close>

fun process_dart_files :: "string list \<Rightarrow> state \<Rightarrow> error + state" where
  "process_dart_files [] st = Inr st"
| "process_dart_files (file_path # ps) st =
     (if file_path = logger_file \<or> file_path \<in> set key_files
      then process_dart_files ps st
      else (case process_file file_path st of
              Inl e \<Rightarrow> Inl e
            | Inr st' \<Rightarrow> process_dart_files ps st'))"

definition main :: "string list \<Rightarrow> state \<Rightarrow> error + state" where
  "main dart_files st =
     (case process_key_files key_files st of
        Inl e \<Rightarrow> Inl e
      | Inr st' \<Rightarrow> process_dart_files dart_files st')"

section \<open>Reference definitions\<close>

text \<open>\<^verbatim>\<open>sep.join(ws)\<close>, the inverse of splitting.\<close>

fun join_char :: "char \<Rightarrow> string list \<Rightarrow> string" where
  "join_char sep [] = []"
| "join_char sep [w] = w"
| "join_char sep (w # v # ws) = w @ sep # join_char sep (v # ws)"

text \<open>A text of ASCII characters only, on which \<^const>\<open>capitalize\<close> is \<^verbatim>\<open>str.capitalize\<close>.\<close>

definition ascii_text :: "string \<Rightarrow> bool" where
  "ascii_text s = list_all (\<lambda>c. \<not> digit7 c) s"

text \<open>What a tag would be if only the first letter of a word were touched.\<close>

definition upper_first :: "string \<Rightarrow> string" where
  "upper_first w = (case w of [] \<Rightarrow> [] | c # cs \<Rightarrow> ascii_upper c # cs)"

text \<open>
  Example texts and states. In the first, the text of the import line, with its newline,
  occurs a second time at the end of a comment line.
\<close>

definition repeated_import :: string where
  "repeated_import = ''import 'a.dart';'' @ [nl] @ ''// import 'a.dart';'' @ [nl]"

definition no_import_state :: state where
  "no_import_state = \<lparr>files = [''lib/a.dart'' \<mapsto> ''void main() {}'' @ [nl]], stdout = []\<rparr>"

definition migrated_state :: state where
  "migrated_state =
     \<lparr>files = [''lib/a.dart'' \<mapsto> ''import 'b.dart';'' @ [nl] @ logger_import @ [nl]],
      stdout = []\<rparr>"

text \<open>
  The paths that have been processed, read off the notices that
  \<^verbatim>\<open>replace_print_with_logger\<close> prints, in order.
\<close>

definition processed_paths :: "string list \<Rightarrow> string list" where
  "processed_paths out =
     map (drop (length replaced_notice)) (filter (\<lambda>l. startswith l replaced_notice) out)"

text \<open>
  The file set as the specification words it: the priority files that exist, in listed
  order, then the discovered files that are neither the logging module nor in the
  priority list, in discovery order.
\<close>

definition file_set :: "string set \<Rightarrow> string list \<Rightarrow> string list" where
  "file_set existing dart_files =
     filter (\<lambda>p. p \<in> existing) key_files
     @ filter (\<lambda>p. p \<noteq> logger_file \<and> p \<notin> set key_files) dart_files"

text \<open>A small project: one priority file, the logging module and one other file.\<close>

definition project_state :: state where
  "project_state =
     \<lparr>files = [''lib/main.dart'' \<mapsto> ''void main() {}'' @ [nl],
               ''lib/utils/logger.dart'' \<mapsto> ''class Logger {}'' @ [nl],
               ''lib/widgets/a.dart'' \<mapsto> ''class A {}'' @ [nl]],
      stdout = []\<rparr>"

definition project_dart_files :: "string list" where
  "project_dart_files = [''lib/main.dart'', ''lib/utils/logger.dart'', ''lib/widgets/a.dart'']"

text \<open>An error print in the shape of rule (c).\<close>

definition stmt_error_in_save :: string where
  "stmt_error_in_save = ''print('DEBUG: Error in save: $e');''"




text \<open>\<^verbatim>\<open>print('DEBUG: print("x");');\<close>: a message that is itself a print statement.\<close>

definition quoted_print :: string where
  "quoted_print = print_debug @ print_dq @ ''x'' @ close_dq @ close_sq"

text \<open>
  \<^verbatim>\<open>print('DEBUG: xprint('DEBUG: y: $z');\<close>: a print statement after the opening of
  another.
\<close>

definition spanning_print :: string where
  "spanning_print = print_debug @ ''x'' @ print_debug @ ''y: $z'' @ close_sq"

text \<open>\<^verbatim>\<open>print("a" + b + ": $c");\<close>: a message with double quotes in it.\<close>

definition concat_print :: string where
  "concat_print = print_dq @ ''a'' @ [dq] @ '' + b + '' @ [dq] @ '': $c'' @ close_dq"

text \<open>\<^verbatim>\<open>print("count: $n");\<close>\<close>

definition var_print :: string where
  "var_print = print_dq @ ''count: $n'' @ close_dq"




text \<open>
  \<^verbatim>\<open>print("a: $print("b");");\<close>: a print statement in the place of the variable of
  another.
\<close>

definition nested_var_print :: string where
  "nested_var_print = print_dq @ ''a: $'' @ print_dq @ ''b'' @ close_dq @ close_dq"

text \<open>The text before and after the one print statement of a file.\<close>

definition one_print_pre :: string where
  "one_print_pre = ''import 'b.dart';'' @ [nl] @ ''void f(int n) {'' @ [nl] @ ''  ''"

definition one_print_post :: string where
  "one_print_post = [nl] @ ''}'' @ [nl]"

section \<open>Tag derivation: proofs\<close>

lemma rfind_absent: "c \<notin> set s \<Longrightarrow> rfind c s = - 1"
  by (simp add: rfind_def)

lemma rfind_last: "c \<notin> set ys \<Longrightarrow> rfind c (xs @ c # ys) = int (length xs)"
proof -
  assume a: "c \<notin> set ys"
  have "takeWhile (\<lambda>x. x \<noteq> c) (rev ys @ c # rev xs) = rev ys"
    using a by (subst takeWhile_append2) auto
  then show ?thesis by (simp add: rfind_def)
qed

lemma basename_dir:
  assumes "dir = [] \<or> last dir = CHR ''/''" and "CHR ''/'' \<notin> set name"
  shows "basename (dir @ name) = name"
proof (cases "dir = []")
  case True
  then show ?thesis using assms by (simp add: basename_def rfind_absent)
next
  case False
  then obtain d where d: "dir = d @ [CHR ''/'']"
    using assms(1) by (metis append_butlast_last_id)
  have "rfind CHR ''/'' (d @ CHR ''/'' # name) = int (length d)"
    using assms(2) by (rule rfind_last)
  moreover have "nat (int (length d) + 1) = Suc (length d)" by simp
  ultimately show ?thesis by (simp add: basename_def d del: of_nat_Suc)
qed

lemma splitext_name:
  assumes "CHR ''/'' \<notin> set stem" and "CHR ''/'' \<notin> set ext" and "CHR ''.'' \<notin> set ext"
    and "\<exists>c\<in>set stem. c \<noteq> CHR ''.''"
  shows "splitext (stem @ ''.'' @ ext) = (stem, ''.'' @ ext)"
proof -
  have s: "rfind CHR ''/'' (stem @ ''.'' @ ext) = - 1"
    using assms(1,2) by (simp add: rfind_absent)
  have d: "rfind CHR ''.'' (stem @ ''.'' @ ext) = int (length stem)"
    using rfind_last [OF assms(3), of stem] by simp
  have "list_ex (\<lambda>c. c \<noteq> CHR ''.'') stem"
    using assms(4) by (simp add: list_ex_iff)
  then show ?thesis
    unfolding splitext_def s d by (simp add: Let_def)
qed

lemma split_char_not_Nil: "split_char sep s \<noteq> []"
  by (induction s) (auto split: list.splits)

lemma split_char_word: "sep \<notin> set w \<Longrightarrow> split_char sep w = [w]"
  by (induction w) auto

lemma split_char_append:
  "sep \<notin> set w \<Longrightarrow> split_char sep (w @ sep # s) = w # split_char sep s"
  by (induction w) (auto split: list.splits simp: split_char_not_Nil)

lemma split_char_join:
  "ws \<noteq> [] \<Longrightarrow> \<forall>w\<in>set ws. sep \<notin> set w \<Longrightarrow> split_char sep (join_char sep ws) = ws"
  by (induction sep ws rule: join_char.induct) (auto simp: split_char_word split_char_append)

lemma set_join_char: "set (join_char sep ws) \<subseteq> insert sep (\<Union>(set ` set ws))"
  by (induction sep ws rule: join_char.induct) auto

lemma tag_of_words:
  assumes "ws \<noteq> []"
    and "\<forall>w\<in>set ws. CHR ''_'' \<notin> set w \<and> CHR ''/'' \<notin> set w"
    and "\<exists>c\<in>set (join_char CHR ''_'' ws). c \<noteq> CHR ''.''"
    and "CHR ''.'' \<notin> set ext" and "CHR ''/'' \<notin> set ext"
    and "dir = [] \<or> last dir = CHR ''/''"
  shows "get_log_tag_from_path (dir @ join_char CHR ''_'' ws @ ''.'' @ ext)
         = concat (map capitalize ws)"
proof -
  let ?stem = "join_char CHR ''_'' ws"
  have ns: "CHR ''/'' \<notin> set ?stem"
    using set_join_char [of "CHR ''_''" ws] assms(2) by auto
  then have "CHR ''/'' \<notin> set (?stem @ ''.'' @ ext)"
    using assms(5) by simp
  then have b: "basename (dir @ ?stem @ ''.'' @ ext) = ?stem @ ''.'' @ ext"
    using assms(6) basename_dir by blast
  have e: "splitext (?stem @ ''.'' @ ext) = (?stem, ''.'' @ ext)"
    using ns assms(3,4,5) by (intro splitext_name) auto
  have w: "split_char CHR ''_'' ?stem = ws"
    using assms(1,2) by (intro split_char_join) auto
  show ?thesis
    by (simp add: get_log_tag_from_path_def b e w del: append.simps append_Cons)
qed

lemma ascii_lower_letters: "\<forall>c\<in>set upper_letters. ascii_lower c \<notin> set upper_letters"
  by code_simp

lemma ascii_lower_not_upper: "ascii_lower c \<notin> set upper_letters"
proof (cases "c \<in> set upper_letters")
  case True
  then show ?thesis using ascii_lower_letters by blast
next
  case False
  then have "map_of (zip upper_letters lower_letters) c = None"
    by (simp add: map_of_eq_None_iff upper_letters_def lower_letters_def)
  then show ?thesis using False by (simp add: ascii_lower_def)
qed

lemma ascii_lower_upper: "c \<in> set upper_letters \<Longrightarrow> ascii_lower c \<noteq> c"
  using ascii_lower_not_upper [of c] by auto

lemma capitalize_tail: "tl (capitalize w) = map ascii_lower (tl w)"
  by (cases w) (simp_all add: capitalize_def)

lemma length_capitalize: "length (capitalize w) = length w"
  by (cases w) (simp_all add: capitalize_def)

lemma length_upper_first: "length (upper_first w) = length w"
  by (cases w) (simp_all add: upper_first_def)

lemma capitalize_changes:
  assumes "c \<in> set (tl w)" and "c \<in> set upper_letters"
  shows "capitalize w \<noteq> upper_first w"
proof
  assume "capitalize w = upper_first w"
  then have "tl (capitalize w) = tl (upper_first w)" by simp
  then have "map ascii_lower (tl w) = tl w"
    by (cases w) (simp_all add: capitalize_def upper_first_def)
  then have "map ascii_lower (tl w) = map id (tl w)" by simp
  then have "\<forall>x\<in>set (tl w). ascii_lower x = x"
    by (simp only: map_eq_conv id_apply)
  then show False using assms ascii_lower_upper by blast
qed

lemma concat_caps_differs:
  assumes "w \<in> set ws" and "c \<in> set (tl w)" and "c \<in> set upper_letters"
  shows "concat (map capitalize ws) \<noteq> concat (map upper_first ws)"
proof
  assume eq: "concat (map capitalize ws) = concat (map upper_first ws)"
  have "map capitalize ws = map upper_first ws"
  proof (rule concat_injective [OF eq])
    show "length (map capitalize ws) = length (map upper_first ws)" by simp
    show "\<forall>(x, y)\<in>set (zip (map capitalize ws) (map upper_first ws)). length x = length y"
      by (auto simp: zip_map_map length_capitalize length_upper_first zip_same)
  qed
  then have "capitalize w = upper_first w" using assms(1) by simp
  then show False using capitalize_changes assms(2,3) by blast
qed


text \<open>
  C6: the tag of a path \<open>dir/w1_w2_..._wn.ext\<close> is the concatenation of the capitalized
  words \<open>w1 ... wn\<close> of the base name without its extension: the base name is taken,
  the extension stripped, the rest split on underscores, each word capitalized, and the
  words joined with no separator. \<^verbatim>\<open>onboarding_screen.dart\<close> gives \<^verbatim>\<open>OnboardingScreen\<close>,
  \<^verbatim>\<open>auth_provider.dart\<close> gives \<^verbatim>\<open>AuthProvider\<close>. The function is total; the empty path
  gives the empty tag and \<^verbatim>\<open>.dart\<close> gives \<^verbatim>\<open>.dart\<close>.
\<close>

theorem get_log_tag_from_path_words:
  assumes "ws \<noteq> []"
    and "\<forall>w\<in>set ws. CHR ''_'' \<notin> set w \<and> CHR ''/'' \<notin> set w"
    and "\<exists>c\<in>set (join_char CHR ''_'' ws). c \<noteq> CHR ''.''"
    and "CHR ''.'' \<notin> set ext" and "CHR ''/'' \<notin> set ext"
    and "dir = [] \<or> last dir = CHR ''/''"
    and "ascii_text (dir @ join_char CHR ''_'' ws @ ''.'' @ ext)"
  shows "get_log_tag_from_path (dir @ join_char CHR ''_'' ws @ ''.'' @ ext)
           = concat (map capitalize ws)
         \<and> get_log_tag_from_path ''onboarding_screen.dart'' = ''OnboardingScreen''
         \<and> get_log_tag_from_path ''auth_provider.dart'' = ''AuthProvider''
         \<and> get_log_tag_from_path [] = []
         \<and> get_log_tag_from_path ''.dart'' = ''.dart''"
proof -
  have "get_log_tag_from_path ''onboarding_screen.dart'' = ''OnboardingScreen''"
    by code_simp
  moreover have "get_log_tag_from_path ''auth_provider.dart'' = ''AuthProvider''"
    by code_simp
  moreover have "get_log_tag_from_path [] = []"
    by code_simp
  moreover have "get_log_tag_from_path ''.dart'' = ''.dart''"
    by code_simp
  ultimately show ?thesis
    using tag_of_words [OF assms(1-6)] by blast
qed

theorem get_log_tag_from_path_words_witness:
  "get_log_tag_from_path ''lib/screens/onboarding/onboarding_screen.dart''
     = concat (map capitalize [''onboarding'', ''screen''])"
proof -
  have h: "ascii_text (''lib/screens/onboarding/'' @ join_char CHR ''_'' [''onboarding'', ''screen'']
             @ ''.'' @ ''dart'')"
    by code_simp
  show ?thesis
    using get_log_tag_from_path_words
      [where ws = "[''onboarding'', ''screen'']" and ext = "''dart''"
         and dir = "''lib/screens/onboarding/''", OF _ _ _ _ _ _ h]
    by simp
qed

text \<open>
  C10: within each underscore-separated word of the base name, every character after
  the first is lowercased: the rest of a capitalized word is the lowercased rest of the
  word and holds no upper-case letter, so a name with an upper-case letter beyond the
  first character of a word does not keep its casing. \<^verbatim>\<open>URL_helper.dart\<close> gives
  \<^verbatim>\<open>UrlHelper\<close>.
\<close>

theorem get_log_tag_from_path_lowercases:
  assumes "ws \<noteq> []"
    and "\<forall>w\<in>set ws. CHR ''_'' \<notin> set w \<and> CHR ''/'' \<notin> set w"
    and "\<exists>c\<in>set (join_char CHR ''_'' ws). c \<noteq> CHR ''.''"
    and "CHR ''.'' \<notin> set ext" and "CHR ''/'' \<notin> set ext"
    and "dir = [] \<or> last dir = CHR ''/''"
    and "ascii_text (dir @ join_char CHR ''_'' ws @ ''.'' @ ext)"
  shows "get_log_tag_from_path (dir @ join_char CHR ''_'' ws @ ''.'' @ ext)
           = concat (map capitalize ws)
         \<and> (\<forall>w\<in>set ws. tl (capitalize w) = map ascii_lower (tl w)
                \<and> (\<forall>c\<in>set (tl (capitalize w)). c \<notin> set upper_letters))
         \<and> ((\<exists>w\<in>set ws. \<exists>c\<in>set (tl w). c \<in> set upper_letters) \<longrightarrow>
              get_log_tag_from_path (dir @ join_char CHR ''_'' ws @ ''.'' @ ext)
                \<noteq> concat (map upper_first ws))
         \<and> get_log_tag_from_path ''URL_helper.dart'' = ''UrlHelper''"
proof -
  have t: "get_log_tag_from_path (dir @ join_char CHR ''_'' ws @ ''.'' @ ext)
             = concat (map capitalize ws)"
    by (rule tag_of_words [OF assms(1-6)])
  have l: "\<forall>w\<in>set ws. tl (capitalize w) = map ascii_lower (tl w)
             \<and> (\<forall>c\<in>set (tl (capitalize w)). c \<notin> set upper_letters)"
    by (auto simp: capitalize_tail ascii_lower_not_upper)
  have d: "(\<exists>w\<in>set ws. \<exists>c\<in>set (tl w). c \<in> set upper_letters) \<longrightarrow>
             get_log_tag_from_path (dir @ join_char CHR ''_'' ws @ ''.'' @ ext)
               \<noteq> concat (map upper_first ws)"
    unfolding t using concat_caps_differs by blast
  have e: "get_log_tag_from_path ''URL_helper.dart'' = ''UrlHelper''"
    by code_simp
  show ?thesis using t l d e by blast
qed

theorem get_log_tag_from_path_lowercases_witness:
  "get_log_tag_from_path ''URL_helper.dart'' = concat (map capitalize [''URL'', ''helper''])
   \<and> get_log_tag_from_path ''URL_helper.dart'' \<noteq> concat (map upper_first [''URL'', ''helper''])"
proof -
  have h1: "[''URL'', ''helper''] \<noteq> []"
    by simp
  have h2: "\<forall>w\<in>set [''URL'', ''helper'']. CHR ''_'' \<notin> set w \<and> CHR ''/'' \<notin> set w"
    by simp
  have h3: "\<exists>c\<in>set (join_char CHR ''_'' [''URL'', ''helper'']). c \<noteq> CHR ''.''"
    by simp
  have h4: "CHR ''.'' \<notin> set ''dart''" and h5: "CHR ''/'' \<notin> set ''dart''"
    by simp_all
  have h6: "([]::string) = [] \<or> last ([]::string) = CHR ''/''"
    by simp
  have h7: "ascii_text ([] @ join_char CHR ''_'' [''URL'', ''helper''] @ ''.'' @ ''dart'')"
    by code_simp
  have u: "\<exists>w\<in>set [''URL'', ''helper'']. \<exists>c\<in>set (tl w). c \<in> set upper_letters"
    by code_simp
  have p: "[] @ join_char CHR ''_'' [''URL'', ''helper''] @ ''.'' @ ''dart'' = ''URL_helper.dart''"
    by simp
  note t = get_log_tag_from_path_lowercases [OF h1 h2 h3 h4 h5 h6 h7]
  from t [unfolded p] u show ?thesis
    by blast
qed

section \<open>Import insertion\<close>

text \<open>
  C7: when the pattern \<^verbatim>\<open>(import [^;]+;)\n\<close> matches nowhere in the text of the file,
  \<^verbatim>\<open>add_logger_import\<close> writes nothing and prints nothing: the state after the step is
  the state before it, so no logging import is added anywhere.
\<close>

theorem add_logger_import_no_import_line:
  assumes "files st file_path = Some content"
    and "re_search pat_import content = None"
  shows "add_logger_import file_path st = Inr st"
  using assms by (simp add: add_logger_import_def import_insertion_def)

theorem add_logger_import_no_import_line_witness:
  "add_logger_import ''lib/a.dart'' no_import_state = Inr no_import_state"
proof -
  have f: "files no_import_state ''lib/a.dart'' = Some (''void main() {}'' @ [nl])"
    by (simp add: no_import_state_def)
  have n: "re_search pat_import (''void main() {}'' @ [nl]) = None"
    by code_simp
  show ?thesis
    by (rule add_logger_import_no_import_line [OF f n])
qed

text \<open>
  C8: when the literal \<^verbatim>\<open>import 'package:yetuga/utils/logger.dart';\<close> occurs anywhere in
  the text of the file, \<^verbatim>\<open>add_logger_import\<close> writes nothing and prints nothing: the
  state after the step is the state before it.
\<close>

theorem add_logger_import_already_present:
  assumes "files st file_path = Some content"
    and "str_contains logger_import content"
  shows "add_logger_import file_path st = Inr st"
  using assms by (simp add: add_logger_import_def import_insertion_def)

theorem add_logger_import_already_present_witness:
  "add_logger_import ''lib/a.dart'' migrated_state = Inr migrated_state"
proof -
  have f: "files migrated_state ''lib/a.dart''
             = Some (''import 'b.dart';'' @ [nl] @ logger_import @ [nl])"
    by (simp add: migrated_state_def)
  have c: "str_contains logger_import (''import 'b.dart';'' @ [nl] @ logger_import @ [nl])"
    by code_simp
  show ?thesis
    by (rule add_logger_import_already_present [OF f c])
qed

text \<open>
  C3: the import is to be inserted once, after the first matched import line. Here the
  matched text \<^verbatim>\<open>import 'a.dart';\<close> with its newline occurs a second time, at the end of
  a comment line, and \<^verbatim>\<open>str.replace\<close> inserts the logging import after both.
\<close>

theorem import_insertion_repeated:
  "import_insertion repeated_import
     = Some (''import 'a.dart';'' @ [nl] @ logger_import @ [nl]
             @ ''// import 'a.dart';'' @ [nl] @ logger_import @ [nl])"
  by code_simp

section \<open>The file set: proofs\<close>

lemma processed_paths_append:
  "processed_paths (xs @ ys) = processed_paths xs @ processed_paths ys"
  by (simp add: processed_paths_def)

lemma processed_paths_replaced: "processed_paths [replaced_notice @ p] = [p]"
  by (simp add: processed_paths_def startswith_def)

lemma processed_paths_added: "processed_paths [added_notice @ p] = []"
  by (simp add: processed_paths_def replaced_notice_def added_notice_def startswith_def)

lemma dom_rewrite: "m p = Some c \<Longrightarrow> dom (m(p \<mapsto> c')) = dom m"
  by (simp add: insert_absorb domI)

lemma add_logger_import_effect:
  assumes "add_logger_import p st = Inr st'"
  shows "dom (files st') = dom (files st) \<and> processed_paths (stdout st') = processed_paths (stdout st)"
proof -
  obtain c where c: "files st p = Some c"
    using assms by (cases "files st p") (simp_all add: add_logger_import_def)
  show ?thesis
  proof (cases "import_insertion c")
    case None
    then show ?thesis using assms c by (simp add: add_logger_import_def)
  next
    case (Some c')
    then have "st' = st\<lparr>files := (files st)(p \<mapsto> c'), stdout := stdout st @ [added_notice @ p]\<rparr>"
      using assms c by (simp add: add_logger_import_def)
    then show ?thesis
      using dom_rewrite [of "files st" p c, OF c] by (simp add: processed_paths_append processed_paths_added)
  qed
qed

lemma add_logger_import_total:
  "p \<in> dom (files st) \<Longrightarrow> \<exists>st'. add_logger_import p st = Inr st'"
  by (auto simp: add_logger_import_def split: option.splits)

lemma replace_print_with_logger_effect:
  assumes "replace_print_with_logger p t st = Inr st'"
  shows "dom (files st') = dom (files st)
         \<and> processed_paths (stdout st') = processed_paths (stdout st) @ [p]"
proof -
  obtain c where c: "files st p = Some c"
    using assms by (cases "files st p") (simp_all add: replace_print_with_logger_def)
  then have "st' = st\<lparr>files := (files st)(p \<mapsto> replace_prints t c),
                       stdout := stdout st @ [replaced_notice @ p]\<rparr>"
    using assms by (simp add: replace_print_with_logger_def)
  then show ?thesis
    using dom_rewrite [of "files st" p c, OF c] by (simp add: processed_paths_append processed_paths_replaced)
qed

lemma replace_print_with_logger_total:
  "p \<in> dom (files st) \<Longrightarrow> \<exists>st'. replace_print_with_logger p t st = Inr st'"
  by (auto simp: replace_print_with_logger_def split: option.splits)

lemma process_file_effect:
  assumes "process_file p st = Inr st'"
  shows "dom (files st') = dom (files st)
         \<and> processed_paths (stdout st') = processed_paths (stdout st) @ [p]"
proof -
  obtain st1 where a: "add_logger_import p st = Inr st1"
    and r: "replace_print_with_logger p (get_log_tag_from_path p) st1 = Inr st'"
    using assms by (auto simp: process_file_def Let_def split: sum.splits)
  show ?thesis
    using add_logger_import_effect [OF a] replace_print_with_logger_effect [OF r] by simp
qed

lemma process_file_total:
  assumes "p \<in> dom (files st)"
  shows "\<exists>st'. process_file p st = Inr st'"
proof -
  obtain st1 where a: "add_logger_import p st = Inr st1"
    using add_logger_import_total [OF assms] by blast
  then have "p \<in> dom (files st1)"
    using add_logger_import_effect assms by blast
  then obtain st' where "replace_print_with_logger p (get_log_tag_from_path p) st1 = Inr st'"
    using replace_print_with_logger_total by blast
  then show ?thesis using a by (simp add: process_file_def)
qed

lemma process_key_files_run:
  "\<exists>st'. process_key_files ps st = Inr st'
         \<and> dom (files st') = dom (files st)
         \<and> processed_paths (stdout st')
             = processed_paths (stdout st) @ filter (\<lambda>p. p \<in> dom (files st)) ps"
proof (induction ps arbitrary: st)
  case Nil
  then show ?case by simp
next
  case (Cons p ps)
  show ?case
  proof (cases "p \<in> dom (files st)")
    case True
    then obtain st1 where s: "process_file p st = Inr st1"
      using process_file_total by blast
    note e = process_file_effect [OF s]
    obtain st' where "process_key_files ps st1 = Inr st'"
      and "dom (files st') = dom (files st1)"
      and "processed_paths (stdout st')
             = processed_paths (stdout st1) @ filter (\<lambda>p. p \<in> dom (files st1)) ps"
      using Cons.IH [of st1] by blast
    then show ?thesis using True s e by simp
  next
    case False
    then show ?thesis using Cons.IH [of st] by simp
  qed
qed

lemma process_dart_files_run:
  assumes "\<forall>p\<in>set ps. p \<in> dom (files st)"
  shows "\<exists>st'. process_dart_files ps st = Inr st'
         \<and> dom (files st') = dom (files st)
         \<and> processed_paths (stdout st')
             = processed_paths (stdout st)
               @ filter (\<lambda>p. p \<noteq> logger_file \<and> p \<notin> set key_files) ps"
  using assms
proof (induction ps arbitrary: st)
  case Nil
  then show ?case by simp
next
  case (Cons p ps)
  show ?case
  proof (cases "p = logger_file \<or> p \<in> set key_files")
    case True
    then show ?thesis using Cons.IH [of st] Cons.prems by auto
  next
    case False
    have "p \<in> dom (files st)" using Cons.prems by simp
    then obtain st1 where s: "process_file p st = Inr st1"
      using process_file_total by blast
    note e = process_file_effect [OF s]
    have "\<forall>q\<in>set ps. q \<in> dom (files st1)" using Cons.prems e by simp
    then obtain st' where "process_dart_files ps st1 = Inr st'"
      and "dom (files st') = dom (files st1)"
      and "processed_paths (stdout st')
             = processed_paths (stdout st1)
               @ filter (\<lambda>p. p \<noteq> logger_file \<and> p \<notin> set key_files) ps"
      using Cons.IH [of st1] by blast
    then show ?thesis using False s e by simp
  qed
qed

lemma distinct_key_files: "distinct key_files"
  by code_simp

lemma distinct_file_set: "distinct dart_files \<Longrightarrow> distinct (file_set existing dart_files)"
  by (auto simp: file_set_def distinct_key_files)

text \<open>
  C5: when every discovered file exists, the run completes, and the files it processes
  are, in this order: the priority paths that exist on disk, in listed order (a priority
  path that does not exist is skipped without error); then the discovered files in
  discovery order, without \<^verbatim>\<open>lib/utils/logger.dart\<close> and without every path of the
  priority list. When the discovered paths are pairwise distinct, no path is processed
  twice. (No discovered path has a backslash, so that every tag is literal text in the
  templates.)
\<close>

theorem main_file_set:
  assumes "\<forall>p\<in>set dart_files. p \<in> dom (files st)"
    and "distinct dart_files"
    and "\<forall>p\<in>set dart_files. backslash \<notin> set p"
  shows "\<exists>st'. main dart_files st = Inr st'
           \<and> processed_paths (stdout st')
               = processed_paths (stdout st) @ file_set (dom (files st)) dart_files
           \<and> distinct (file_set (dom (files st)) dart_files)
           \<and> logger_file \<notin> set (file_set (dom (files st)) dart_files)"
proof -
  obtain st1 where k: "process_key_files key_files st = Inr st1"
    and d1: "dom (files st1) = dom (files st)"
    and o1: "processed_paths (stdout st1)
               = processed_paths (stdout st) @ filter (\<lambda>p. p \<in> dom (files st)) key_files"
    using process_key_files_run [of key_files st] by blast
  have "\<forall>p\<in>set dart_files. p \<in> dom (files st1)" using assms(1) d1 by simp
  then obtain st' where g: "process_dart_files dart_files st1 = Inr st'"
    and o2: "processed_paths (stdout st')
               = processed_paths (stdout st1)
                 @ filter (\<lambda>p. p \<noteq> logger_file \<and> p \<notin> set key_files) dart_files"
    using process_dart_files_run [of dart_files st1] by blast
  have m: "main dart_files st = Inr st'" using k g by (simp add: main_def)
  have l: "logger_file \<notin> set key_files" by code_simp
  show ?thesis
    using m o1 o2 distinct_file_set [OF assms(2)] l by (auto simp: file_set_def)
qed

theorem main_file_set_witness:
  "\<exists>st'. main project_dart_files project_state = Inr st'
     \<and> processed_paths (stdout st') = [''lib/main.dart'', ''lib/widgets/a.dart'']"
proof -
  have e: "\<forall>p\<in>set project_dart_files. p \<in> dom (files project_state)"
    by (simp add: project_dart_files_def project_state_def)
  have d: "distinct project_dart_files"
    by (simp add: project_dart_files_def)
  have b: "\<forall>p\<in>set project_dart_files. backslash \<notin> set p"
    by code_simp
  have o: "processed_paths (stdout project_state) = []"
    by (simp add: project_state_def processed_paths_def)
  have m: "dom (files project_state)
             = {''lib/main.dart'', ''lib/utils/logger.dart'', ''lib/widgets/a.dart''}"
    by (auto simp: project_state_def)
  have f: "file_set (dom (files project_state)) project_dart_files
             = [''lib/main.dart'', ''lib/widgets/a.dart'']"
    unfolding m by (simp add: file_set_def key_files_def logger_file_def project_dart_files_def)
  note t = main_file_set [OF e d b]
  from t show ?thesis
    unfolding f o by auto
qed

section \<open>Matching and substitution: lemmas\<close>

declare re_sub.simps [simp del]

declare str_replace.simps [simp del]

lemma startswith_prefix: "startswith s l \<longleftrightarrow> prefix l s"
proof
  assume "startswith s l"
  then have "take (length l) s = l" by (simp add: startswith_def)
  then show "prefix l s" by (metis take_is_prefix)
next
  assume "prefix l s"
  then obtain r where "s = l @ r" by (auto simp: prefix_def)
  then show "startswith s l" by (simp add: startswith_def)
qed

lemma str_contains_sublist: "str_contains sub s \<longleftrightarrow> sublist sub s"
  by (induction s) (auto simp: startswith_prefix sublist_Cons_right)


lemma sublist_sep:
  assumes "c \<notin> set p"
  shows "sublist p (xs @ c # ys) \<longleftrightarrow> sublist p xs \<or> sublist p ys"
proof
  assume "sublist p (xs @ c # ys)"
  then consider "sublist p xs" | "sublist p (c # ys)"
    | xs1 xs2 where "p = xs1 @ xs2" "suffix xs1 xs" "prefix xs2 (c # ys)"
    by (auto simp: sublist_append)
  then show "sublist p xs \<or> sublist p ys"
  proof cases
    case 1
    then show ?thesis by simp
  next
    case 2
    then have "prefix p (c # ys) \<or> sublist p ys" by (simp add: sublist_Cons_right)
    moreover have "prefix p (c # ys) \<Longrightarrow> p = []"
      using assms by (cases p) auto
    ultimately show ?thesis by auto
  next
    case 3
    then have "xs2 = []" using assms by (cases xs2) auto
    then show ?thesis using 3 by (simp add: suffix_imp_sublist)
  qed
next
  assume "sublist p xs \<or> sublist p ys"
  then show "sublist p (xs @ c # ys)"
    by (metis sublist_append sublist_Cons_right)
qed

lemma first_down_Some:
  "first_down f lo n = Some r \<Longrightarrow> \<exists>k. lo \<le> k \<and> k \<le> n \<and> f k = Some r"
proof (induction n)
  case 0
  then show ?case by (auto split: if_splits)
next
  case (Suc n)
  show ?case
  proof (cases "f (Suc n)")
    case None
    then have "first_down f lo n = Some r"
      using Suc.prems by (simp split: if_splits)
    then show ?thesis using Suc.IH by (meson le_Suc_eq)
  next
    case (Some a)
    then have "f (Suc n) = Some r" "lo \<le> Suc n"
      using Suc.prems by (auto split: if_splits)
    then show ?thesis by blast
  qed
qed

lemma first_down_top: "lo \<le> n \<Longrightarrow> f n = Some r \<Longrightarrow> first_down f lo n = Some r"
  by (cases n) auto

lemma match_here_Lit:
  "match_here ((Lit l, g) # ps) s = Some (ms, rest) \<longleftrightarrow>
     (\<exists>ms'. prefix l s \<and> match_here ps (drop (length l) s) = Some (ms', rest) \<and> ms = (g, l) # ms')"
  by (auto simp: startswith_prefix)

lemma match_here_Plus:
  assumes "match_here ((Plus c, g) # ps) s = Some (ms, rest)"
  shows "\<exists>n ms'. 1 \<le> n \<and> n \<le> run_length c s
           \<and> match_here ps (drop n s) = Some (ms', rest) \<and> ms = (g, take n s) # ms'"
proof -
  obtain k where "1 \<le> k" "k \<le> run_length c s"
    and "map_option (\<lambda>(ms, r). ((g, take k s) # ms, r)) (match_here ps (drop k s)) = Some (ms, rest)"
    using first_down_Some assms by (metis (no_types, lifting) match_here.simps(3))
  then show ?thesis by auto
qed

lemma match_here_Star:
  assumes "match_here ((Star c, g) # ps) s = Some (ms, rest)"
  shows "\<exists>n ms'. n \<le> run_length c s
           \<and> match_here ps (drop n s) = Some (ms', rest) \<and> ms = (g, take n s) # ms'"
proof -
  obtain k where "k \<le> run_length c s"
    and "map_option (\<lambda>(ms, r). ((g, take k s) # ms, r)) (match_here ps (drop k s)) = Some (ms, rest)"
    using first_down_Some assms by (metis (no_types, lifting) match_here.simps(4))
  then show ?thesis by auto
qed

lemma run_length_take: "n \<le> run_length c s \<Longrightarrow> c \<notin> set (take n s)"
proof -
  assume "n \<le> run_length c s"
  then have "take n s = take n (takeWhile (\<lambda>x. x \<noteq> c) s)"
    unfolding run_length_def
    by (metis append_eq_conv_conj min.absorb2 take_take takeWhile_dropWhile_id length_take min.commute take_all_iff append_take_drop_id takeWhile_eq_take)
  then show ?thesis
    by (metis in_set_takeD set_takeWhileD)
qed

lemma match_here_sound: "match_here ps s = Some (ms, rest) \<Longrightarrow> s = group0 ms @ rest"
proof (induction ps arbitrary: s ms rest)
  case Nil
  then show ?case by (simp add: group0_def)
next
  case (Cons p ps)
  obtain it g where p: "p = (it, g)" by (cases p)
  show ?case
  proof (cases it)
    case (Lit l)
    have "match_here ((Lit l, g) # ps) s = Some (ms, rest)"
      using Cons.prems by (simp only: p Lit)
    then obtain ms' where "prefix l s" "match_here ps (drop (length l) s) = Some (ms', rest)"
      "ms = (g, l) # ms'"
      unfolding match_here_Lit by blast
    then show ?thesis using Cons.IH [of "drop (length l) s" ms' rest]
      by (auto simp: group0_def prefix_def)
  next
    case (Plus c)
    then obtain n ms' where "match_here ps (drop n s) = Some (ms', rest)" "ms = (g, take n s) # ms'"
      using Cons.prems p match_here_Plus by blast
    then show ?thesis using Cons.IH [of "drop n s" ms' rest]
      by (simp add: group0_def) (metis append_take_drop_id)
  next
    case (Star c)
    then obtain n ms' where "match_here ps (drop n s) = Some (ms', rest)" "ms = (g, take n s) # ms'"
      using Cons.prems p match_here_Star by blast
    then show ?thesis using Cons.IH [of "drop n s" ms' rest]
      by (simp add: group0_def) (metis append_take_drop_id)
  qed
qed

lemma re_sub_Nil: "match_here pat [] = None \<Longrightarrow> re_sub pat repl [] = []"
  by (simp add: re_sub.simps)

lemma re_sub_nomatch:
  "match_here pat (c # cs) = None \<Longrightarrow> re_sub pat repl (c # cs) = c # re_sub pat repl cs"
  by (subst re_sub.simps) simp

lemma re_sub_match:
  "match_here pat s = Some (ms, rest) \<Longrightarrow> length rest < length s \<Longrightarrow>
     re_sub pat repl s = expand repl ms @ re_sub pat repl rest"
  by (subst re_sub.simps) simp

lemma re_sub_absent:
  assumes "\<not> sublist l s"
  shows "re_sub ((Lit l, g) # ps) repl s = s"
  using assms
proof (induction s)
  case Nil
  then have "l \<noteq> []" by auto
  then have "match_here ((Lit l, g) # ps) [] = None" by (simp add: startswith_def)
  then show ?case by (rule re_sub_Nil)
next
  case (Cons c cs)
  then have "\<not> prefix l (c # cs)" and n: "\<not> sublist l cs"
    by (auto simp: sublist_Cons_right)
  then have "match_here ((Lit l, g) # ps) (c # cs) = None"
    by (simp add: startswith_prefix)
  then show ?case using Cons.IH [OF n] by (simp add: re_sub_nomatch)
qed


lemma sublist_trans: "sublist xs ys \<Longrightarrow> sublist ys zs \<Longrightarrow> sublist xs zs"
proof -
  assume "sublist xs ys" and "sublist ys zs"
  then obtain a b c d where "ys = a @ xs @ b" and "zs = c @ ys @ d"
    by (auto simp: sublist_def)
  then have "zs = (c @ a) @ xs @ (b @ d)" by simp
  then show ?thesis unfolding sublist_def by blast
qed

lemma re_sub_no_print:
  assumes "\<not> sublist ''print('' s" and "prefix ''print('' l"
  shows "re_sub ((Lit l, g) # ps) repl s = s"
proof -
  have "\<not> sublist l s"
    using assms by (meson prefix_imp_sublist sublist_trans)
  then show ?thesis by (rule re_sub_absent)
qed

lemma prefix_print_debug: "prefix ''print('' print_debug"
  by (simp add: print_debug_def)

lemma prefix_print_debug_error: "prefix ''print('' (print_debug @ ''Error in '')"
  by (simp add: print_debug_def)

lemma prefix_print_dq: "prefix ''print('' print_dq"
  by (simp add: print_dq_def)

lemma rules_no_print:
  assumes "\<not> sublist ''print('' s" and "(pat, repl) \<in> set (rules log_tag)"
  shows "re_sub pat repl s = s"
  using assms(2) re_sub_no_print [OF assms(1)]
  by (auto simp: rules_def pat_a_def pat_b_def pat_c_def pat_d_def pat_e_def pat_f_def pat_g_def
        prefix_print_debug prefix_print_debug_error prefix_print_dq)

lemma apply_rules_no_print:
  assumes "\<not> sublist ''print('' s" and "\<forall>r\<in>set rs. r \<in> set (rules log_tag)"
  shows "apply_rules rs s = s"
  using assms(2)
proof (induction rs)
  case Nil
  then show ?case by (simp add: apply_rules_def)
next
  case (Cons r rs)
  obtain pat repl where r: "r = (pat, repl)" by (cases r)
  then have "re_sub pat repl s = s"
    using Cons.prems rules_no_print [OF assms(1)] by auto
  then show ?case using Cons r by (simp add: apply_rules_def)
qed








declare match_here.simps [simp del]

section \<open>A second run\<close>
















section \<open>The rules in sequence\<close>

lemma sq_not_print: "sq \<notin> set ''print(''"
  by (simp add: sq_def)

lemma no_print_lit:
  "\<not> sublist ''print('' ''Logger.d(''" "\<not> sublist ''print('' ''Logger.e(''"
  "\<not> sublist ''print('' '', ''" "\<not> sublist ''print('' '');''"
  "\<not> sublist ''print('' '', e);''" "\<not> sublist ''print('' ''Error in ''"
  "\<not> sublist ''print('' '' $''" "\<not> sublist ''print('' []"
  by (simp_all add: sublist_Cons_right)

lemma logger_call_no_print:
  assumes "\<not> sublist ''print('' log_tag" and "level = ''d'' \<or> level = ''e''"
    and "\<not> sublist ''print('' body"
  shows "\<not> sublist ''print('' (logger_call level log_tag @ body)"
proof -
  have "logger_call level log_tag @ body
          = (''Logger.'' @ level @ ''('') @ sq # log_tag @ sq # '', '' @ sq # body"
    by (simp add: logger_call_def)
  moreover have "\<not> sublist ''print('' (''Logger.'' @ level @ ''('')"
    using assms(2) no_print_lit(1,2) by auto
  ultimately show ?thesis
    using assms(1,3) no_print_lit(3) by (simp only: sublist_sep [OF sq_not_print] simp_thms)
qed

lemma expand_tmpl_d_no_print:
  assumes "\<not> sublist ''print('' log_tag" and "\<not> sublist ''print('' (group 1 ms)"
  shows "\<not> sublist ''print('' (expand (tmpl_d log_tag) ms)"
proof -
  have "\<not> sublist ''print('' (group 1 ms @ sq # '');'')"
    using assms(2) no_print_lit(4) by (simp only: sublist_sep [OF sq_not_print] simp_thms)
  then have "\<not> sublist ''print('' (logger_call ''d'' log_tag @ group 1 ms @ sq # '');'')"
    using assms(1) by (intro logger_call_no_print) simp_all
  then show ?thesis by (simp add: tmpl_d_def close_sq_def)
qed

lemma expand_tmpl_d_var_no_print:
  assumes "\<not> sublist ''print('' log_tag" and "\<not> sublist ''print('' (group 1 ms)"
    and "\<not> sublist ''print('' (group 2 ms)"
  shows "\<not> sublist ''print('' (expand (tmpl_d_var log_tag) ms)"
proof -
  have "\<not> sublist ''print('' (group 2 ms @ sq # '');'')"
    using assms(3) no_print_lit(4) by (simp only: sublist_sep [OF sq_not_print] simp_thms)
  then have "\<not> sublist ''print('' ('' '' @ CHR ''$'' # group 2 ms @ sq # '');'')"
    by (subst sublist_sep) (simp_all add: sublist_Cons_right)
  then have "\<not> sublist ''print('' (group 1 ms @ CHR '':'' # '' '' @ CHR ''$'' # group 2 ms @ sq # '');'')"
    using assms(2) by (subst sublist_sep) simp_all
  then have "\<not> sublist ''print('' (logger_call ''d'' log_tag @ group 1 ms @ '': $'' @ group 2 ms @ sq # '');'')"
    using assms(1) by (intro logger_call_no_print) simp_all
  then show ?thesis by (simp add: tmpl_d_var_def close_sq_def)
qed

lemma expand_tmpl_e_no_print:
  assumes "\<not> sublist ''print('' log_tag" and "\<not> sublist ''print('' (group 1 ms)"
  shows "\<not> sublist ''print('' (expand (tmpl_e log_tag) ms)"
proof -
  have "\<not> sublist ''print('' (group 1 ms @ sq # '', e);'')"
    using assms(2) no_print_lit(5) by (simp only: sublist_sep [OF sq_not_print] simp_thms)
  then have "\<not> sublist ''print('' (logger_call ''e'' log_tag @ group 1 ms @ sq # '', e);'')"
    using assms(1) by (intro logger_call_no_print) simp_all
  then show ?thesis by (simp add: tmpl_e_def)
qed

lemma expand_tmpl_e_in_no_print:
  assumes "\<not> sublist ''print('' log_tag" and "\<not> sublist ''print('' (group 1 ms)"
  shows "\<not> sublist ''print('' (expand (tmpl_e_in log_tag) ms)"
proof -
  have "\<not> sublist ''print('' (group 1 ms @ sq # '', e);'')"
    using assms(2) no_print_lit(5) by (simp only: sublist_sep [OF sq_not_print] simp_thms)
  then have "\<not> sublist ''print('' (''Error in'' @ CHR '' '' # group 1 ms @ sq # '', e);'')"
    by (subst sublist_sep) (simp_all add: sublist_Cons_right)
  then have "\<not> sublist ''print('' (logger_call ''e'' log_tag @ ''Error in '' @ group 1 ms @ sq # '', e);'')"
    using assms(1) by (intro logger_call_no_print) simp_all
  then show ?thesis by (simp add: tmpl_e_in_def)
qed

lemma rules_expand_no_print:
  assumes "\<not> sublist ''print('' log_tag" and "\<not> sublist ''print('' (group 1 ms)"
    and "\<not> sublist ''print('' (group 2 ms)" and "(pat, repl) \<in> set (rules log_tag)"
  shows "\<not> sublist ''print('' (expand repl ms)"
  using assms(4) expand_tmpl_d_no_print [OF assms(1,2)] expand_tmpl_d_var_no_print [OF assms(1,2,3)]
    expand_tmpl_e_no_print [OF assms(1,2)] expand_tmpl_e_in_no_print [OF assms(1,2)]
  by (auto simp: rules_def)

text \<open>
  C4 (as amended): the seven substitutions are applied one after the other, each to the
  whole result of the one before. The replacement text that a rule writes holds no match
  of any rule, so that every rule leaves it unchanged, whenever neither the tag nor a
  captured group holds \<^verbatim>\<open>print(\<close>. When a captured group holds a print call, as in
  \<^verbatim>\<open>print('DEBUG: print("x");');\<close>, a later rule does match inside the text that the
  earlier rule produced; and a match of a later rule that begins before that text can run
  over it, as rule (b) does in \<^verbatim>\<open>print('DEBUG: xprint('DEBUG: y: $z');\<close> after rule (a).
\<close>

theorem rules_sequential:
  assumes "backslash \<notin> set log_tag"
    and "\<not> str_contains ''print('' log_tag"
    and "\<not> str_contains ''print('' (group 1 ms)"
    and "\<not> str_contains ''print('' (group 2 ms)"
    and "(pat, repl) \<in> set (rules log_tag)"
    and "(pat', repl') \<in> set (rules log_tag)"
  shows "re_sub pat' repl' (expand repl ms) = expand repl ms
         \<and> replace_prints log_tag content
             = re_sub pat_g (tmpl_d_var log_tag)
                (re_sub pat_f (tmpl_d log_tag)
                  (re_sub pat_e (tmpl_e log_tag)
                    (re_sub pat_d (tmpl_e log_tag)
                      (re_sub pat_c (tmpl_e_in log_tag)
                        (re_sub pat_b (tmpl_d_var log_tag)
                          (re_sub pat_a (tmpl_d log_tag) content))))))"
proof -
  have "\<not> sublist ''print('' (expand repl ms)"
    using assms(2-5) by (intro rules_expand_no_print) (simp_all add: str_contains_sublist)
  then have "re_sub pat' repl' (expand repl ms) = expand repl ms"
    using assms(6) by (rule rules_no_print)
  moreover have "replace_prints log_tag content
             = re_sub pat_g (tmpl_d_var log_tag)
                (re_sub pat_f (tmpl_d log_tag)
                  (re_sub pat_e (tmpl_e log_tag)
                    (re_sub pat_d (tmpl_e log_tag)
                      (re_sub pat_c (tmpl_e_in log_tag)
                        (re_sub pat_b (tmpl_d_var log_tag)
                          (re_sub pat_a (tmpl_d log_tag) content))))))"
    by (simp add: replace_prints_def apply_rules_def rules_def)
  ultimately show ?thesis by simp
qed

theorem rules_sequential_witness:
  "re_sub pat_f (tmpl_d ''Main'') (expand (tmpl_d ''Main'') [(1, ''hello'')])
     = expand (tmpl_d ''Main'') [(1, ''hello'')]
   \<and> replace_prints ''Main'' stmt_error_in_save
       = re_sub pat_g (tmpl_d_var ''Main'')
          (re_sub pat_f (tmpl_d ''Main'')
            (re_sub pat_e (tmpl_e ''Main'')
              (re_sub pat_d (tmpl_e ''Main'')
                (re_sub pat_c (tmpl_e_in ''Main'')
                  (re_sub pat_b (tmpl_d_var ''Main'')
                    (re_sub pat_a (tmpl_d ''Main'') stmt_error_in_save))))))"
proof -
  have b: "backslash \<notin> set ''Main''"
    by code_simp
  have t: "\<not> str_contains ''print('' ''Main''"
    by code_simp
  have g1: "\<not> str_contains ''print('' (group 1 [(1, ''hello'')])"
    by code_simp
  have g2: "\<not> str_contains ''print('' (group 2 [(1, ''hello'')])"
    by code_simp
  have r: "(pat_a, tmpl_d ''Main'') \<in> set (rules ''Main'')"
    by (simp add: rules_def)
  have r': "(pat_f, tmpl_d ''Main'') \<in> set (rules ''Main'')"
    by (simp add: rules_def)
  show ?thesis
    by (rule rules_sequential [OF b t g1 g2 r r'])
qed

theorem rules_sequential_counterexample:
  "re_sub pat_a (tmpl_d ''T'') quoted_print = expand (tmpl_d ''T'') [(1, print_dq @ ''x'' @ close_dq)]
   \<and> re_search pat_f (expand (tmpl_d ''T'') [(1, print_dq @ ''x'' @ close_dq)]) \<noteq> None
   \<and> re_sub pat_f (tmpl_d ''T'') (expand (tmpl_d ''T'') [(1, print_dq @ ''x'' @ close_dq)])
       \<noteq> expand (tmpl_d ''T'') [(1, print_dq @ ''x'' @ close_dq)]
   \<and> re_sub pat_a (tmpl_d ''T'') spanning_print
       = print_debug @ ''x'' @ expand (tmpl_d ''T'') [(1, ''y: $z'')]
   \<and> match_here pat_b (print_debug @ ''x'' @ expand (tmpl_d ''T'') [(1, ''y: $z'')])
       = Some ([(0, print_debug), (1, ''xLogger.d('T', 'y''), (0, '': $''), (2, ''z''),
                (0, close_sq)], [])"
  by code_simp

section \<open>Rule (g) after rule (f)\<close>

lemma run_length_run: "c \<notin> set g \<Longrightarrow> run_length c (g @ c # t) = length g"
proof -
  assume "c \<notin> set g"
  then have "takeWhile (\<lambda>x. x \<noteq> c) (g @ c # t) = g"
    by (subst takeWhile_append2) auto
  then show ?thesis by (simp add: run_length_def)
qed

lemma match_here_Plus_run:
  assumes "g \<noteq> []" and "c \<notin> set g" and "match_here ps (c # t) = Some (ms', rest)"
  shows "match_here ((Plus c, k) # ps) (g @ c # t) = Some ((k, g) # ms', rest)"
proof -
  let ?f = "\<lambda>n. map_option (\<lambda>(ms, r). ((k, take n (g @ c # t)) # ms, r))
                   (match_here ps (drop n (g @ c # t)))"
  have "1 \<le> length g" using assms(1) by (cases g) simp_all
  moreover have "?f (length g) = Some ((k, g) # ms', rest)"
    using assms(3) by simp
  ultimately have "first_down ?f 1 (length g) = Some ((k, g) # ms', rest)"
    by (rule first_down_top)
  then show ?thesis
    by (simp add: match_here.simps run_length_run [OF assms(2)])
qed

lemma match_here_last_Lit: "match_here [(Lit l, k)] (l @ rest) = Some ([(k, l)], rest)"
  by (simp add: match_here.simps startswith_def)

lemma match_pat_f:
  assumes "g \<noteq> []" and "dq \<notin> set g"
  shows "match_here pat_f (print_dq @ g @ close_dq @ rest)
           = Some ([(0, print_dq), (1, g), (0, close_dq)], rest)"
proof -
  have "match_here [(Lit close_dq, 0)] (dq # '');'' @ rest) = Some ([(0, close_dq)], rest)"
    using match_here_last_Lit [of close_dq 0 rest] by (simp add: close_dq_def)
  then have "match_here [(Plus dq, 1), (Lit close_dq, 0)] (g @ dq # '');'' @ rest)
               = Some ([(1, g), (0, close_dq)], rest)"
    using assms by (intro match_here_Plus_run)
  then show ?thesis
    unfolding pat_f_def match_here_Lit by (simp add: close_dq_def)
qed

lemma match_pat_g:
  assumes "match_here pat_g s = Some (ms, rest)"
  shows "\<exists>g1 g2. ms = [(0, print_dq), (1, g1), (0, '': $''), (2, g2), (0, close_dq)]
           \<and> g1 \<noteq> [] \<and> g2 \<noteq> [] \<and> dq \<notin> set g2"
proof -
  obtain m1 where 1: "ms = (0, print_dq) # m1"
    and a: "match_here [(Plus CHR '':'', 1), (Lit '': $'', 0), (Plus dq, 2), (Lit close_dq, 0)]
              (drop (length print_dq) s) = Some (m1, rest)"
    using assms unfolding pat_g_def match_here_Lit by blast
  obtain n m2 where 2: "m1 = (1, take n (drop (length print_dq) s)) # m2" and n: "1 \<le> n"
    and nr: "n \<le> run_length CHR '':'' (drop (length print_dq) s)"
    and b: "match_here [(Lit '': $'', 0), (Plus dq, 2), (Lit close_dq, 0)]
              (drop n (drop (length print_dq) s)) = Some (m2, rest)"
    using match_here_Plus [OF a] by blast
  let ?s2 = "drop (length '': $'') (drop n (drop (length print_dq) s))"
  obtain m3 where 3: "m2 = (0, '': $'') # m3"
    and c: "match_here [(Plus dq, 2), (Lit close_dq, 0)] ?s2 = Some (m3, rest)"
    using b unfolding match_here_Lit by blast
  obtain k m4 where 4: "m3 = (2, take k ?s2) # m4" and k: "1 \<le> k" "k \<le> run_length dq ?s2"
    and d: "match_here [(Lit close_dq, 0)] (drop k ?s2) = Some (m4, rest)"
    using match_here_Plus [OF c] by blast
  obtain m5 where 5: "m4 = (0, close_dq) # m5"
    and e: "match_here [] (drop (length close_dq) (drop k ?s2)) = Some (m5, rest)"
    using d unfolding match_here_Lit by blast
  have 6: "m5 = []" using e by (simp add: match_here.simps)
  have "length (take n (drop (length print_dq) s)) = n"
    using nr unfolding run_length_def
    by (metis length_take min.absorb2 takeWhile_eq_take length_takeWhile_le le_trans)
  then have g1: "take n (drop (length print_dq) s) \<noteq> []" using n by auto
  have "length (take k ?s2) = k"
    using k(2) unfolding run_length_def
    by (metis length_take min.absorb2 takeWhile_eq_take length_takeWhile_le le_trans)
  then have g2: "take k ?s2 \<noteq> []" using k(1) by auto
  have "dq \<notin> set (take k ?s2)" using k(2) by (rule run_length_take)
  then show ?thesis
    unfolding 1 2 3 4 5 6 using g1 g2 by blast
qed

lemma replace_prints_last:
  "replace_prints log_tag content
     = re_sub pat_g (tmpl_d_var log_tag) (apply_rules (butlast (rules log_tag)) content)"
  by (simp add: replace_prints_def apply_rules_def rules_def)

lemma six_rules:
  "apply_rules (butlast (rules log_tag)) content
     = re_sub pat_f (tmpl_d log_tag)
         (re_sub pat_e (tmpl_e log_tag)
           (re_sub pat_d (tmpl_e log_tag)
             (re_sub pat_c (tmpl_e_in log_tag)
               (re_sub pat_b (tmpl_d_var log_tag)
                 (re_sub pat_a (tmpl_d log_tag) content)))))"
  by (simp add: apply_rules_def rules_def)

lemma rule_g_absent:
  assumes "\<not> sublist print_dq t"
  shows "re_sub pat_g repl t = t"
  unfolding pat_g_def using assms by (rule re_sub_absent)

lemma sublist_after_sep:
  assumes "c \<notin> set p" and "\<not> sublist p (xs @ [c])" and "\<not> sublist p ys"
  shows "\<not> sublist p ((xs @ [c]) @ ys)"
proof -
  have "\<not> sublist p xs"
  proof
    assume "sublist p xs"
    moreover have "sublist xs (xs @ [c])" by simp
    ultimately have "sublist p (xs @ [c])" by (rule sublist_trans)
    then show False using assms(2) by simp
  qed
  then have "\<not> sublist p (xs @ c # ys)"
    using assms(3) by (simp only: sublist_sep [OF assms(1)] simp_thms)
  then show ?thesis by simp
qed

lemma re_sub_head:
  assumes l: "prefix ''print('' l" and cs: "\<not> sublist ''print('' cs"
  shows "re_sub ((Lit l, g) # ps) repl (c # cs)
           = (case match_here ((Lit l, g) # ps) (c # cs) of
                None \<Rightarrow> c # cs
              | Some (ms, rest) \<Rightarrow> expand repl ms @ rest)"
proof (cases "match_here ((Lit l, g) # ps) (c # cs)")
  case None
  then have "re_sub ((Lit l, g) # ps) repl (c # cs) = c # re_sub ((Lit l, g) # ps) repl cs"
    by (rule re_sub_nomatch)
  then show ?thesis
    using None re_sub_no_print [OF cs l] by simp
next
  case (Some r)
  obtain ms rest where r: "r = (ms, rest)" by (cases r)
  have m: "match_here ((Lit l, g) # ps) (c # cs) = Some (ms, rest)"
    using Some r by simp
  obtain ms' where ms: "ms = (g, l) # ms'"
    using m unfolding match_here_Lit by blast
  obtain l' where l': "l = CHR ''p'' # l'"
    using l by (cases l) auto
  have "c # cs = (l @ group0 ms') @ rest"
    using match_here_sound [OF m] by (simp add: ms group0_def)
  then have e: "cs = (l' @ group0 ms') @ rest"
    by (simp add: l')
  have "sublist rest ((l' @ group0 ms') @ rest)"
    by (rule sublist_append_leftI)
  then have "sublist rest cs" using e by simp
  then have "\<not> sublist ''print('' rest"
    using cs sublist_trans by blast
  then have "re_sub ((Lit l, g) # ps) repl rest = rest"
    using l by (rule re_sub_no_print)
  moreover have "length rest < length (c # cs)"
    using e by simp
  ultimately have "re_sub ((Lit l, g) # ps) repl (c # cs) = expand repl ms @ rest"
    using re_sub_match [OF m] by simp
  then show ?thesis using m by simp
qed

lemma match_pat_e:
  assumes "match_here pat_e s = Some (ms, rest)"
  shows "\<exists>a b. ms = [(0, print_dq), (1, a), (1, ''Error''), (1, b), (0, '': $e'' @ close_dq)]"
proof -
  obtain m1 where 1: "ms = (0, print_dq) # m1"
    and a: "match_here [(Plus CHR '':'', 1), (Lit ''Error'', 1), (Star CHR '':'', 1),
                        (Lit ('': $e'' @ close_dq), 0)]
              (drop (length print_dq) s) = Some (m1, rest)"
    using assms unfolding pat_e_def match_here_Lit by blast
  let ?s1 = "drop (length print_dq) s"
  obtain n m2 where 2: "m1 = (1, take n ?s1) # m2"
    and b: "match_here [(Lit ''Error'', 1), (Star CHR '':'', 1), (Lit ('': $e'' @ close_dq), 0)]
              (drop n ?s1) = Some (m2, rest)"
    using match_here_Plus [OF a] by blast
  let ?s2 = "drop (length ''Error'') (drop n ?s1)"
  obtain m3 where 3: "m2 = (1, ''Error'') # m3"
    and c: "match_here [(Star CHR '':'', 1), (Lit ('': $e'' @ close_dq), 0)] ?s2 = Some (m3, rest)"
    using b unfolding match_here_Lit by blast
  obtain k m4 where 4: "m3 = (1, take k ?s2) # m4"
    and d: "match_here [(Lit ('': $e'' @ close_dq), 0)] (drop k ?s2) = Some (m4, rest)"
    using match_here_Star [OF c] by blast
  obtain m5 where 5: "m4 = (0, '': $e'' @ close_dq) # m5"
    and e: "match_here [] (drop (length ('': $e'' @ close_dq)) (drop k ?s2)) = Some (m5, rest)"
    using d unfolding match_here_Lit by blast
  have 6: "m5 = []" using e by (simp add: match_here.simps)
  show ?thesis unfolding 1 2 3 4 5 6 by blast
qed

lemma sublist_before_hd:
  assumes "c \<notin> set p" and "\<not> sublist p xs" and "\<not> sublist p (c # ys)"
  shows "\<not> sublist p (xs @ c # ys)"
proof -
  have "\<not> sublist p ys"
    using assms(3) by (simp add: sublist_Cons_right)
  then show ?thesis
    using assms(2) by (simp only: sublist_sep [OF assms(1)] simp_thms)
qed

lemma prefix_print_before:
  assumes "prefix ''print('' (xs @ CHR ''p'' # t)" and "xs \<noteq> []"
  shows "sublist ''print('' xs"
proof -
  consider "prefix ''print('' xs" | us where "''print('' = xs @ us" "prefix us (CHR ''p'' # t)"
    using assms(1) unfolding prefix_append by blast
  then show ?thesis
  proof cases
    case 1
    then show ?thesis by (rule prefix_imp_sublist)
  next
    case 2
    obtain x xs' where xs: "xs = x # xs'"
      using assms(2) by (cases xs) auto
    have r: "''rint('' = xs' @ us"
      using 2(1) by (simp add: xs)
    have "us = []"
    proof (cases us)
      case Nil
      then show ?thesis .
    next
      case (Cons u us')
      then have "u = CHR ''p''" using 2(2) by simp
      then have "CHR ''p'' \<in> set (xs' @ us)" by (simp add: Cons)
      then have "CHR ''p'' \<in> set ''rint(''" by (simp only: r)
      then show ?thesis by simp
    qed
    then have "xs = ''print(''" using 2(1) by simp
    then show ?thesis by simp
  qed
qed

lemma re_sub_before:
  assumes l: "prefix ''print('' l" and pre: "\<not> sublist ''print('' pre"
  shows "re_sub ((Lit l, g) # ps) repl (pre @ CHR ''p'' # t)
           = pre @ re_sub ((Lit l, g) # ps) repl (CHR ''p'' # t)"
  using pre
proof (induction pre)
  case Nil
  then show ?case by simp
next
  case (Cons c cs)
  have n: "\<not> sublist ''print('' cs"
    using Cons.prems by (simp add: sublist_Cons_right)
  have "\<not> prefix ''print('' ((c # cs) @ CHR ''p'' # t)"
    using prefix_print_before [of "c # cs" t] Cons.prems by blast
  then have "\<not> prefix l (c # cs @ CHR ''p'' # t)"
    using l prefix_order.trans by fastforce
  then have "match_here ((Lit l, g) # ps) (c # cs @ CHR ''p'' # t) = None"
    by (simp add: match_here.simps startswith_prefix)
  then have "re_sub ((Lit l, g) # ps) repl (c # cs @ CHR ''p'' # t)
               = c # re_sub ((Lit l, g) # ps) repl (cs @ CHR ''p'' # t)"
    by (rule re_sub_nomatch)
  then show ?case using Cons.IH [OF n] by simp
qed

lemma statement_six_rules:
  assumes m: "dq \<notin> set msg" "\<not> sublist ''print('' msg"
    and a: "dq \<notin> set arg" "\<not> sublist ''print('' arg"
    and t: "\<not> sublist ''print('' log_tag"
    and pre: "\<not> sublist ''print('' pre" and post: "\<not> sublist ''print('' post"
  shows "\<not> sublist ''print('' (apply_rules (butlast (rules log_tag))
           (pre @ print_dq @ msg @ '': $'' @ arg @ close_dq @ post))"
proof -
  let ?P = "''print(''"
  let ?G = "msg @ '': $'' @ arg"
  let ?R = "''rint('' @ dq # ?G @ close_dq @ post"
  let ?S = "pre @ print_dq @ msg @ '': $'' @ arg @ close_dq @ post"
  have S: "?S = pre @ CHR ''p'' # ?R"
    by (simp add: print_dq_def)
  have nd: "dq \<notin> set ?P" and nc: "CHR '':'' \<notin> set ?P" and ns: "CHR ''$'' \<notin> set ?P"
    and sc: "CHR '';'' \<notin> set ?P" and nL: "CHR ''L'' \<notin> set ?P"
    by (simp_all add: dq_def)
  have l0: "\<not> sublist ?P '')''" "\<not> sublist ?P '' ''" "\<not> sublist ?P ''rint(''"
    by (simp_all add: sublist_Cons_right)
  have "\<not> sublist ?P ('')'' @ CHR '';'' # post)"
    using l0(1) post by (simp only: sublist_sep [OF sc] simp_thms)
  then have "\<not> sublist ?P (arg @ dq # '')'' @ CHR '';'' # post)"
    using a(2) by (simp only: sublist_sep [OF nd] simp_thms)
  then have "\<not> sublist ?P ('' '' @ CHR ''$'' # arg @ dq # '')'' @ CHR '';'' # post)"
    using l0(2) by (simp only: sublist_sep [OF ns] simp_thms)
  then have G: "\<not> sublist ?P (msg @ CHR '':'' # '' '' @ CHR ''$'' # arg @ dq # '')'' @ CHR '';'' # post)"
    using m(2) by (simp only: sublist_sep [OF nc] simp_thms)
  then have "\<not> sublist ?P (''rint('' @ dq # msg @ CHR '':'' # '' '' @ CHR ''$'' # arg @ dq # '')'' @ CHR '';'' # post)"
    using l0(3) by (simp only: sublist_sep [OF nd] simp_thms)
  then have R: "\<not> sublist ?P ?R"
    by (simp add: close_dq_def)
  have g: "\<not> sublist ?P ?G"
  proof
    assume "sublist ?P ?G"
    moreover have "sublist ?G (msg @ CHR '':'' # '' '' @ CHR ''$'' # arg @ dq # '')'' @ CHR '';'' # post)"
      by (metis append.assoc append_Cons append_Nil sublist_append_rightI)
    ultimately show False using G sublist_trans by blast
  qed
  have dG: "dq \<notin> set ?G"
    using m(1) a(1) by (simp add: dq_def)
  have nG: "?G \<noteq> []" by simp
  have no: "re_sub ((Lit l, k) # ps) repl ?S = ?S"
    if "\<not> prefix l (CHR ''p'' # ?R)" "prefix ?P l" for l k ps repl
  proof -
    have "match_here ((Lit l, k) # ps) (CHR ''p'' # ?R) = None"
      using that(1) by (simp add: match_here.simps startswith_prefix)
    then have "re_sub ((Lit l, k) # ps) repl (CHR ''p'' # ?R) = CHR ''p'' # ?R"
      using re_sub_head [OF that(2) R, of k ps repl "CHR ''p''"] by simp
    then show ?thesis
      unfolding S using re_sub_before [OF that(2) pre, of k ps repl ?R] by simp
  qed
  have pd: "\<not> prefix print_debug (CHR ''p'' # ?R)"
    "\<not> prefix (print_debug @ ''Error in '') (CHR ''p'' # ?R)"
    by (simp_all add: print_debug_def dq_def)
  have ra: "re_sub pat_a (tmpl_d log_tag) ?S = ?S"
    unfolding pat_a_def using pd(1) prefix_print_debug by (rule no)
  have rb: "re_sub pat_b (tmpl_d_var log_tag) ?S = ?S"
    unfolding pat_b_def using pd(1) prefix_print_debug by (rule no)
  have rc: "re_sub pat_c (tmpl_e_in log_tag) ?S = ?S"
    unfolding pat_c_def using pd(2) prefix_print_debug_error by (rule no)
  have rd: "re_sub pat_d (tmpl_e log_tag) ?S = ?S"
    unfolding pat_d_def using pd(1) prefix_print_debug by (rule no)
  have six: "apply_rules (butlast (rules log_tag)) ?S
               = re_sub pat_f (tmpl_d log_tag) (re_sub pat_e (tmpl_e log_tag) ?S)"
    unfolding six_rules ra rb rc rd ..
  let ?F = "expand (tmpl_d log_tag) [(0, print_dq), (1, ?G), (0, close_dq)]"
  have f: "re_sub pat_f (tmpl_d log_tag) ?S = pre @ ?F @ post"
  proof -
    have "match_here pat_f (print_dq @ ?G @ close_dq @ post)
            = Some ([(0, print_dq), (1, ?G), (0, close_dq)], post)"
      using nG dG by (rule match_pat_f)
    then have "match_here pat_f (CHR ''p'' # ?R) = Some ([(0, print_dq), (1, ?G), (0, close_dq)], post)"
      by (simp add: print_dq_def)
    then have "re_sub pat_f (tmpl_d log_tag) (CHR ''p'' # ?R) = ?F @ post"
      using re_sub_head [OF prefix_print_dq R, of 0 "[(Plus dq, 1), (Lit close_dq, 0)]"
          "tmpl_d log_tag" "CHR ''p''"]
      by (simp add: pat_f_def)
    then show ?thesis
      unfolding S
      using re_sub_before [OF prefix_print_dq pre, of 0 "[(Plus dq, 1), (Lit close_dq, 0)]"
          "tmpl_d log_tag" ?R]
      by (simp add: pat_f_def)
  qed
  have fP: "\<not> sublist ?P (pre @ ?F @ post)"
  proof -
    let ?Fb = "logger_call ''d'' log_tag @ ?G @ sq # '')''"
    have F: "?F = ?Fb @ [CHR '';'']"
      by (simp add: tmpl_d_def group_def close_sq_def)
    have "\<not> sublist ?P ?F"
      using t g by (intro expand_tmpl_d_no_print) (simp_all add: group_def)
    then have "\<not> sublist ?P (?Fb @ [CHR '';''])"
      by (simp only: F simp_thms)
    with sc have "\<not> sublist ?P ((?Fb @ [CHR '';'']) @ post)"
      using post by (rule sublist_after_sep)
    moreover obtain z where z: "(?Fb @ [CHR '';'']) @ post = CHR ''L'' # z"
      by (simp add: logger_call_def)
    ultimately have "\<not> sublist ?P (CHR ''L'' # z)"
      by simp
    with nL pre have "\<not> sublist ?P (pre @ CHR ''L'' # z)"
      by (rule sublist_before_hd)
    moreover have "pre @ ?F @ post = pre @ CHR ''L'' # z"
      using z by (simp only: F append_assoc)
    ultimately show ?thesis
      by (simp only: simp_thms)
  qed
  have e_pat: "pat_e = (Lit print_dq, 0) # [(Plus CHR '':'', 1), (Lit ''Error'', 1),
                 (Star CHR '':'', 1), (Lit ('': $e'' @ close_dq), 0)]"
    by (simp add: pat_e_def)
  have eb: "re_sub pat_e (tmpl_e log_tag) ?S = pre @ re_sub pat_e (tmpl_e log_tag) (CHR ''p'' # ?R)"
    unfolding S e_pat using prefix_print_dq pre by (rule re_sub_before)
  have eh: "re_sub pat_e (tmpl_e log_tag) (CHR ''p'' # ?R)
              = (case match_here pat_e (CHR ''p'' # ?R) of
                   None \<Rightarrow> CHR ''p'' # ?R
                 | Some (ms, rest) \<Rightarrow> expand (tmpl_e log_tag) ms @ rest)"
    unfolding e_pat using prefix_print_dq R by (rule re_sub_head)
  show ?thesis
  proof (cases "match_here pat_e (CHR ''p'' # ?R)")
    case None
    then have "re_sub pat_e (tmpl_e log_tag) (CHR ''p'' # ?R) = CHR ''p'' # ?R"
      unfolding eh by simp
    then have eq: "re_sub pat_e (tmpl_e log_tag) ?S = ?S"
      unfolding eb by (simp only: S)
    show ?thesis unfolding six eq f by (rule fP)
  next
    case (Some r)
    obtain ms rest where r: "r = (ms, rest)" by (cases r)
    have me: "match_here pat_e (CHR ''p'' # ?R) = Some (ms, rest)"
      using Some r by simp
    obtain x y where ms: "ms = [(0, print_dq), (1, x), (1, ''Error''), (1, y), (0, '': $e'' @ close_dq)]"
      using match_pat_e [OF me] by blast
    have "CHR ''p'' # ?R = print_dq @ (x @ ''Error'' @ y) @ ('': $e'' @ close_dq) @ rest"
      using match_here_sound [OF me] by (simp add: ms group0_def)
    then have eR: "?R = (''rint('' @ [dq]) @ (x @ ''Error'' @ y) @ (('': $e'' @ close_dq) @ rest)"
      by (simp add: print_dq_def)
    have "sublist (x @ ''Error'' @ y) ?R"
      by (subst eR) (rule sublist_appendI)
    then have g1: "\<not> sublist ?P (x @ ''Error'' @ y)"
      using R sublist_trans by blast
    have "sublist rest ?R"
      by (subst eR) (metis append.assoc sublist_append_leftI)
    then have rs: "\<not> sublist ?P rest"
      using R sublist_trans by blast
    have e: "re_sub pat_e (tmpl_e log_tag) ?S = pre @ expand (tmpl_e log_tag) ms @ rest"
      unfolding eb eh me by simp
    let ?Eb = "logger_call ''e'' log_tag @ (x @ ''Error'' @ y) @ sq # '', e)''"
    have nEx: "\<not> sublist ?P (expand (tmpl_e log_tag) ms)"
      using t g1 by (intro expand_tmpl_e_no_print) (simp_all add: ms group_def)
    have E: "expand (tmpl_e log_tag) ms = ?Eb @ [CHR '';'']"
      by (simp add: tmpl_e_def ms group_def)
    have nE0: "\<not> sublist ?P (?Eb @ [CHR '';''])"
      using nEx by (simp only: E simp_thms)
    have "\<not> sublist ?P ((?Eb @ [CHR '';'']) @ rest)"
      using sc nE0 rs by (rule sublist_after_sep)
    moreover obtain z where z: "(?Eb @ [CHR '';'']) @ rest = CHR ''L'' # z"
      by (simp add: logger_call_def)
    ultimately have "\<not> sublist ?P (CHR ''L'' # z)"
      by simp
    with nL pre have "\<not> sublist ?P (pre @ CHR ''L'' # z)"
      by (rule sublist_before_hd)
    moreover have "pre @ expand (tmpl_e log_tag) ms @ rest = pre @ CHR ''L'' # z"
      using z by (simp only: E append_assoc)
    ultimately have nEr: "\<not> sublist ?P (pre @ expand (tmpl_e log_tag) ms @ rest)"
      by (simp only: simp_thms)
    have "re_sub pat_f (tmpl_d log_tag) (pre @ expand (tmpl_e log_tag) ms @ rest)
                 = pre @ expand (tmpl_e log_tag) ms @ rest"
      unfolding pat_f_def using nEr prefix_print_dq by (rule re_sub_no_print)
    then show ?thesis
      using nEr unfolding six e by simp
  qed
qed

lemma rule_g_match_rule_f:
  assumes "match_here pat_g s = Some (ms, rest)"
    and "dq \<notin> set (group 1 ms)"
  shows "\<exists>ms'. match_here pat_f s = Some (ms', rest)
           \<and> expand (tmpl_d log_tag) ms' = expand (tmpl_d_var log_tag) ms"
proof -
  obtain g1 g2 where ms: "ms = [(0, print_dq), (1, g1), (0, '': $''), (2, g2), (0, close_dq)]"
    and g: "g1 \<noteq> []" "g2 \<noteq> []" "dq \<notin> set g2"
    using match_pat_g [OF assms(1)] by blast
  have "dq \<notin> set g1" using assms(2) by (simp add: ms group_def)
  then have d: "dq \<notin> set (g1 @ '': $'' @ g2)"
    using g(3) by (simp add: dq_def)
  have "s = print_dq @ (g1 @ '': $'' @ g2) @ close_dq @ rest"
    using match_here_sound [OF assms(1)] by (simp add: ms group0_def)
  then have "match_here pat_f s
               = Some ([(0, print_dq), (1, g1 @ '': $'' @ g2), (0, close_dq)], rest)"
    using match_pat_f [OF _ d] g(1) by simp
  moreover have "expand (tmpl_d log_tag) [(0, print_dq), (1, g1 @ '': $'' @ g2), (0, close_dq)]
                   = expand (tmpl_d_var log_tag) ms"
    by (simp add: tmpl_d_def tmpl_d_var_def ms group_def)
  ultimately show ?thesis by blast
qed

text \<open>
  C9 (as amended): rule (g) is not redundant on every text. The seven rules give the
  same text as the first six whenever the text that reaches rule (g) holds no
  \<^verbatim>\<open>print("\<close>. This is so in particular for a file with one statement
  \<^verbatim>\<open>print("<msg>: $<var>");\<close>, with no double quote and no \<^verbatim>\<open>print(\<close> in
  \<^verbatim>\<open><msg>\<close>, in \<^verbatim>\<open><var>\<close>, in the tag and in the text around the statement: the first
  six rules leave no \<^verbatim>\<open>print(\<close> there. And wherever the pattern of rule (g) matches
  with no double quote in \<^verbatim>\<open><msg>\<close>, the pattern of rule (f) matches the same text, and
  rule (f) writes the same \<^verbatim>\<open>Logger.d\<close> call as rule (g) would. Rule (g) does change
  the text that reaches it in two cases: a message with a double quote, as in
  \<^verbatim>\<open>print("a" + b + ": $c");\<close>, which rule (f) does not match; and a statement that
  rule (f) completes, as in \<^verbatim>\<open>print("a: $print("b");");\<close>, where rule (f) rewrites the
  inner statement only and rule (g) then matches from the outer \<^verbatim>\<open>print("\<close>.
\<close>

theorem rule_g_redundant_when:
  assumes "backslash \<notin> set log_tag"
  shows "(\<not> str_contains print_dq (apply_rules (butlast (rules log_tag)) content) \<longrightarrow>
            replace_prints log_tag content = apply_rules (butlast (rules log_tag)) content)
         \<and> (dq \<notin> set msg \<and> dq \<notin> set arg \<and> \<not> str_contains ''print('' msg
              \<and> \<not> str_contains ''print('' arg \<and> \<not> str_contains ''print('' log_tag
              \<and> \<not> str_contains ''print('' pre \<and> \<not> str_contains ''print('' post \<longrightarrow>
              replace_prints log_tag (pre @ print_dq @ msg @ '': $'' @ arg @ close_dq @ post)
                = apply_rules (butlast (rules log_tag))
                    (pre @ print_dq @ msg @ '': $'' @ arg @ close_dq @ post)
              \<and> \<not> str_contains ''print(''
                    (replace_prints log_tag
                       (pre @ print_dq @ msg @ '': $'' @ arg @ close_dq @ post)))
         \<and> (match_here pat_g s = Some (ms, rest) \<and> dq \<notin> set (group 1 ms) \<longrightarrow>
              (\<exists>ms'. match_here pat_f s = Some (ms', rest)
                 \<and> expand (tmpl_d log_tag) ms' = expand (tmpl_d_var log_tag) ms))"
proof -
  have 1: "replace_prints log_tag content = apply_rules (butlast (rules log_tag)) content"
    if "\<not> str_contains print_dq (apply_rules (butlast (rules log_tag)) content)"
  proof -
    have "\<not> sublist print_dq (apply_rules (butlast (rules log_tag)) content)"
      using that by (simp add: str_contains_sublist)
    then show ?thesis
      unfolding replace_prints_last by (rule rule_g_absent)
  qed
  let ?c = "pre @ print_dq @ msg @ '': $'' @ arg @ close_dq @ post"
  have 2: "replace_prints log_tag ?c = apply_rules (butlast (rules log_tag)) ?c
           \<and> \<not> str_contains ''print('' (replace_prints log_tag ?c)"
    if h: "dq \<notin> set msg" "dq \<notin> set arg" "\<not> str_contains ''print('' msg"
      "\<not> str_contains ''print('' arg" "\<not> str_contains ''print('' log_tag"
      "\<not> str_contains ''print('' pre" "\<not> str_contains ''print('' post"
  proof -
    let ?six = "apply_rules (butlast (rules log_tag)) ?c"
    have n: "\<not> sublist ''print('' ?six"
      using h by (intro statement_six_rules) (simp_all add: str_contains_sublist)
    have "\<not> sublist print_dq ?six"
    proof
      assume "sublist print_dq ?six"
      moreover have "sublist ''print('' print_dq"
        using prefix_print_dq by (rule prefix_imp_sublist)
      ultimately have "sublist ''print('' ?six"
        using sublist_trans by blast
      then show False using n by simp
    qed
    then have "replace_prints log_tag ?c = ?six"
      unfolding replace_prints_last by (rule rule_g_absent)
    then show ?thesis using n by (simp add: str_contains_sublist)
  qed
  have 3: "\<exists>ms'. match_here pat_f s = Some (ms', rest)
             \<and> expand (tmpl_d log_tag) ms' = expand (tmpl_d_var log_tag) ms"
    if m: "match_here pat_g s = Some (ms, rest)" and d: "dq \<notin> set (group 1 ms)"
    using m d by (rule rule_g_match_rule_f)
  show ?thesis using 1 2 3 by blast
qed

theorem rule_g_redundant_when_witness:
  "replace_prints ''Main'' var_print = apply_rules (butlast (rules ''Main'')) var_print
   \<and> replace_prints ''Main''
         (one_print_pre @ print_dq @ ''count'' @ '': $'' @ ''n'' @ close_dq @ one_print_post)
       = apply_rules (butlast (rules ''Main''))
           (one_print_pre @ print_dq @ ''count'' @ '': $'' @ ''n'' @ close_dq @ one_print_post)
   \<and> \<not> str_contains ''print(''
         (replace_prints ''Main''
            (one_print_pre @ print_dq @ ''count'' @ '': $'' @ ''n'' @ close_dq @ one_print_post))
   \<and> (\<exists>ms'. match_here pat_f var_print = Some (ms', [])
         \<and> expand (tmpl_d ''Main'') ms'
             = expand (tmpl_d_var ''Main'')
                 [(0, print_dq), (1, ''count''), (0, '': $''), (2, ''n''), (0, close_dq)])"
proof -
  have b: "backslash \<notin> set ''Main''"
    by code_simp
  have c: "\<not> str_contains print_dq (apply_rules (butlast (rules ''Main'')) var_print)"
    by code_simp
  have h: "dq \<notin> set ''count'' \<and> dq \<notin> set ''n'' \<and> \<not> str_contains ''print('' ''count''
           \<and> \<not> str_contains ''print('' ''n'' \<and> \<not> str_contains ''print('' ''Main''
           \<and> \<not> str_contains ''print('' one_print_pre \<and> \<not> str_contains ''print('' one_print_post"
    by code_simp
  have m: "match_here pat_g var_print
             = Some ([(0, print_dq), (1, ''count''), (0, '': $''), (2, ''n''), (0, close_dq)], [])"
    by code_simp
  have d: "dq \<notin> set (group 1 [(0, print_dq), (1, ''count''), (0, '': $''), (2, ''n''), (0, close_dq)])"
    by code_simp
  note r = rule_g_redundant_when
    [where log_tag = "''Main''" and content = var_print and msg = "''count''" and arg = "''n''"
       and pre = one_print_pre and post = one_print_post and s = var_print
       and ms = "[(0, print_dq), (1, ''count''), (0, '': $''), (2, ''n''), (0, close_dq)]"
       and rest = "[]", OF b]
  from r c h m d show ?thesis
    by blast
qed

theorem rule_g_redundant_counterexample:
  "apply_rules (butlast (rules ''T'')) concat_print = concat_print
   \<and> replace_prints ''T'' concat_print
       = ''Logger.d('T', 'a'' @ [dq] @ '' + b + '' @ [dq] @ '': $c'' @ close_sq
   \<and> replace_prints ''T'' concat_print \<noteq> apply_rules (butlast (rules ''T'')) concat_print
   \<and> apply_rules (butlast (rules ''T'')) nested_var_print
       = print_dq @ ''a: $Logger.d('T', 'b');'' @ close_dq
   \<and> match_here pat_g (apply_rules (butlast (rules ''T'')) nested_var_print)
       = Some ([(0, print_dq), (1, ''a''), (0, '': $''), (2, ''Logger.d('T', 'b');''),
                (0, close_dq)], [])
   \<and> replace_prints ''T'' nested_var_print = ''Logger.d('T', 'a: $Logger.d('T', 'b');'' @ close_sq
   \<and> replace_prints ''T'' nested_var_print \<noteq> apply_rules (butlast (rules ''T'')) nested_var_print"
  by code_simp

section \<open>Error prints\<close>

lemma first_sep_unique:
  "c \<notin> set a \<Longrightarrow> c \<notin> set a' \<Longrightarrow> a @ c # b = a' @ c # b' \<Longrightarrow> a = a' \<and> b = b'"
proof (induction a arbitrary: a')
  case Nil
  then show ?case by (cases a') auto
next
  case (Cons x xs)
  then show ?case by (cases a') auto
qed

lemma match_pat_a_shape:
  assumes "match_here pat_a s = Some (ms, rest)"
  shows "\<exists>g. ms = [(0, print_debug), (1, g), (0, close_sq)] \<and> g \<noteq> [] \<and> sq \<notin> set g"
proof -
  obtain m1 where 1: "ms = (0, print_debug) # m1"
    and a: "match_here [(Plus sq, 1), (Lit close_sq, 0)] (drop (length print_debug) s)
              = Some (m1, rest)"
    using assms unfolding pat_a_def match_here_Lit by blast
  let ?s1 = "drop (length print_debug) s"
  obtain n m2 where 2: "m1 = (1, take n ?s1) # m2" and n: "1 \<le> n" "n \<le> run_length sq ?s1"
    and b: "match_here [(Lit close_sq, 0)] (drop n ?s1) = Some (m2, rest)"
    using match_here_Plus [OF a] by blast
  obtain m3 where 3: "m2 = (0, close_sq) # m3"
    and c: "match_here [] (drop (length close_sq) (drop n ?s1)) = Some (m3, rest)"
    using b unfolding match_here_Lit by blast
  have 4: "m3 = []" using c by (simp add: match_here.simps)
  have "length (take n ?s1) = n"
    using n(2) unfolding run_length_def
    by (metis length_take min.absorb2 takeWhile_eq_take length_takeWhile_le le_trans)
  then have "take n ?s1 \<noteq> []" using n(1) by auto
  moreover have "sq \<notin> set (take n ?s1)" using n(2) by (rule run_length_take)
  ultimately show ?thesis unfolding 1 2 3 4 by blast
qed

lemma match_pat_a:
  assumes "g \<noteq> []" and "sq \<notin> set g"
  shows "match_here pat_a (print_debug @ g @ close_sq @ rest)
           = Some ([(0, print_debug), (1, g), (0, close_sq)], rest)"
proof -
  have "match_here [(Lit close_sq, 0)] (sq # '');'' @ rest) = Some ([(0, close_sq)], rest)"
    using match_here_last_Lit [of close_sq 0 rest] by (simp add: close_sq_def)
  then have "match_here [(Plus sq, 1), (Lit close_sq, 0)] (g @ sq # '');'' @ rest)
               = Some ([(1, g), (0, close_sq)], rest)"
    using assms by (intro match_here_Plus_run)
  then show ?thesis
    unfolding pat_a_def match_here_Lit by (simp add: close_sq_def)
qed

lemma pat_a_match_before:
  assumes m: "match_here pat_a (pre @ print_debug @ body @ close_sq @ post) = Some (ms, rest)"
    and pre: "pre \<noteq> []" and body: "sq \<notin> set body"
  shows "\<exists>pre'. rest = pre' @ print_debug @ body @ close_sq @ post"
proof -
  let ?P = "''print(''" and ?D = "''DEBUG: ''" and ?C = "'');''"
  let ?X = "(?D @ body) @ sq # (?C @ post)"
  have pd: "print_debug = ?P @ sq # ?D" by (simp add: print_debug_def sq_def)
  have cs: "close_sq = sq # ?C" by (simp add: close_sq_def)
  have nP: "sq \<notin> set ?P" and nD: "sq \<notin> set ?D" by (simp_all add: sq_def)
  obtain g where ms: "ms = [(0, print_debug), (1, g), (0, close_sq)]" and g: "sq \<notin> set g"
    using match_pat_a_shape [OF m] by blast
  have "pre @ print_debug @ body @ close_sq @ post = print_debug @ g @ close_sq @ rest"
    using match_here_sound [OF m] by (simp add: ms group0_def)
  then have E: "pre @ ?P @ sq # ?X = ?P @ sq # ((?D @ g) @ sq # (?C @ rest))"
    by (simp add: pd cs)
  show ?thesis
  proof (cases "sq \<in> set pre")
    case False
    have e: "(pre @ ?P) @ sq # ?X = ?P @ sq # ((?D @ g) @ sq # (?C @ rest))"
      using E by simp
    have n: "sq \<notin> set (pre @ ?P)" using False nP by simp
    have "pre @ ?P = ?P"
      using first_sep_unique [OF n nP e] by (rule conjunct1)
    then show ?thesis using pre by simp
  next
    case True
    then obtain p1 p2 where p: "pre = p1 @ sq # p2" and p1: "sq \<notin> set p1"
      by (meson split_list_first)
    have e: "p1 @ sq # (p2 @ ?P @ sq # ?X) = ?P @ sq # ((?D @ g) @ sq # (?C @ rest))"
      using E by (simp add: p)
    have F: "p2 @ ?P @ sq # ?X = (?D @ g) @ sq # (?C @ rest)"
      using first_sep_unique [OF p1 nP e] by (rule conjunct2)
    have nDg: "sq \<notin> set (?D @ g)" using g nD by simp
    show ?thesis
    proof (cases "sq \<in> set p2")
      case False
      have e2: "(p2 @ ?P) @ sq # ?X = (?D @ g) @ sq # (?C @ rest)"
        using F by simp
      have n2: "sq \<notin> set (p2 @ ?P)" using False nP by simp
      have "?X = ?C @ rest"
        using first_sep_unique [OF n2 nDg e2] by (rule conjunct2)
      then show ?thesis by simp
    next
      case True
      then obtain q1 q2 where q: "p2 = q1 @ sq # q2" and q1: "sq \<notin> set q1"
        by (meson split_list_first)
      have e3: "q1 @ sq # (q2 @ ?P @ sq # ?X) = (?D @ g) @ sq # (?C @ rest)"
        using F by (simp add: q)
      have G: "q2 @ ?P @ sq # ?X = ?C @ rest"
        using first_sep_unique [OF q1 nDg e3] by (rule conjunct2)
      have "\<exists>q3. q2 = ?C @ q3"
      proof (cases q2)
        case Nil
        then show ?thesis using G by simp
      next
        case a: (Cons x xs)
        show ?thesis
        proof (cases xs)
          case Nil
          then show ?thesis using G a by simp
        next
          case (Cons y ys)
          then show ?thesis using G a by simp
        qed
      qed
      then obtain q3 where "q2 = ?C @ q3" by blast
      then have "rest = q3 @ ?P @ sq # ?X" using G by simp
      then have "rest = q3 @ print_debug @ body @ close_sq @ post"
        by (simp add: pd cs)
      then show ?thesis by blast
    qed
  qed
qed

lemma rule_a_rewrites:
  assumes "body \<noteq> []" and "sq \<notin> set body"
  shows "sublist (logger_call ''d'' log_tag @ body @ close_sq)
           (re_sub pat_a (tmpl_d log_tag) (pre @ print_debug @ body @ close_sq @ post))"
proof (induction pre rule: length_induct)
  case (1 pre)
  let ?T = "print_debug @ body @ close_sq @ post"
  let ?L = "logger_call ''d'' log_tag @ body @ close_sq"
  show ?case
  proof (cases pre)
    case Nil
    have m: "match_here pat_a ?T = Some ([(0, print_debug), (1, body), (0, close_sq)], post)"
      using assms by (rule match_pat_a)
    have "length post < length ?T" by (simp add: close_sq_def)
    then have "re_sub pat_a (tmpl_d log_tag) ?T
                 = expand (tmpl_d log_tag) [(0, print_debug), (1, body), (0, close_sq)]
                   @ re_sub pat_a (tmpl_d log_tag) post"
      using m by (intro re_sub_match)
    then have "re_sub pat_a (tmpl_d log_tag) ?T = ?L @ re_sub pat_a (tmpl_d log_tag) post"
      by (simp add: tmpl_d_def group_def)
    then show ?thesis using Nil by simp
  next
    case (Cons c pre0)
    show ?thesis
    proof (cases "match_here pat_a (pre @ ?T)")
      case None
      then have "re_sub pat_a (tmpl_d log_tag) (pre @ ?T)
                   = c # re_sub pat_a (tmpl_d log_tag) (pre0 @ ?T)"
        using Cons re_sub_nomatch [of pat_a c "pre0 @ ?T"] by simp
      moreover have "sublist ?L (re_sub pat_a (tmpl_d log_tag) (pre0 @ ?T))"
        using "1.IH" Cons by simp
      ultimately show ?thesis by (simp add: sublist_Cons_right)
    next
      case (Some r)
      obtain ms rest where r: "r = (ms, rest)" by (cases r)
      have m: "match_here pat_a (pre @ ?T) = Some (ms, rest)" using Some r by simp
      obtain pre' where rest: "rest = pre' @ ?T"
        using pat_a_match_before [OF m _ assms(2)] Cons by blast
      obtain g where "ms = [(0, print_debug), (1, g), (0, close_sq)]"
        using match_pat_a_shape [OF m] by blast
      then have "pre @ ?T = (print_debug @ g @ close_sq) @ rest"
        using match_here_sound [OF m] by (simp add: group0_def)
      then have "length (pre @ ?T) = length (print_debug @ g @ close_sq) + length rest"
        by (metis length_append)
      then have l: "length rest < length (pre @ ?T)"
        by (simp add: print_debug_def)
      then have "length pre' < length pre" using rest by simp
      then have "sublist ?L (re_sub pat_a (tmpl_d log_tag) (pre' @ ?T))"
        using "1.IH" by simp
      moreover have "re_sub pat_a (tmpl_d log_tag) (pre @ ?T)
                       = expand (tmpl_d log_tag) ms @ re_sub pat_a (tmpl_d log_tag) (pre' @ ?T)"
        using re_sub_match [OF m l] rest by simp
      ultimately show ?thesis by (simp add: sublist_append)
    qed
  qed
qed

lemma apply_rules_first:
  "apply_rules ((pat, repl) # rs) s = apply_rules rs (re_sub pat repl s)"
  by (simp add: apply_rules_def)

lemma rule_a_alone:
  assumes "body \<noteq> []" and "sq \<notin> set body"
    and "\<not> sublist ''print('' log_tag" and "\<not> sublist ''print('' body"
  shows "replace_prints log_tag (print_debug @ body @ close_sq)
           = logger_call ''d'' log_tag @ body @ close_sq"
proof -
  let ?L = "logger_call ''d'' log_tag @ body @ close_sq"
  let ?ms = "[(0, print_debug), (1, body), (0, close_sq)]"
  have m: "match_here pat_a (print_debug @ body @ close_sq @ []) = Some (?ms, [])"
    using assms(1,2) by (rule match_pat_a)
  have "match_here pat_a [] = None"
    by (simp add: pat_a_def match_here.simps startswith_def print_debug_def)
  then have "re_sub pat_a (tmpl_d log_tag) [] = []" by (rule re_sub_Nil)
  moreover have "re_sub pat_a (tmpl_d log_tag) (print_debug @ body @ close_sq @ [])
          = expand (tmpl_d log_tag) ?ms @ re_sub pat_a (tmpl_d log_tag) []"
    using m by (intro re_sub_match) (simp_all add: close_sq_def)
  ultimately have a: "re_sub pat_a (tmpl_d log_tag) (print_debug @ body @ close_sq) = ?L"
    by (simp add: tmpl_d_def group_def)
  have "\<not> sublist ''print('' (expand (tmpl_d log_tag) ?ms)"
    using assms(3,4) by (intro expand_tmpl_d_no_print) (simp_all add: group_def)
  then have n: "\<not> sublist ''print('' ?L" by (simp add: tmpl_d_def group_def)
  have "\<forall>r\<in>set (tl (rules log_tag)). r \<in> set (rules log_tag)"
    by (simp add: rules_def)
  then have "apply_rules (tl (rules log_tag)) ?L = ?L"
    using n apply_rules_no_print by blast
  moreover have "replace_prints log_tag (print_debug @ body @ close_sq)
                   = apply_rules (tl (rules log_tag))
                       (re_sub pat_a (tmpl_d log_tag) (print_debug @ body @ close_sq))"
    by (simp add: replace_prints_def rules_def apply_rules_first)
  ultimately show ?thesis using a by simp
qed

text \<open>
  Rule (a) comes first and takes every error print whose method has no single quote: a
  statement \<^verbatim>\<open>print('DEBUG: Error in <method>: $e');\<close> is rewritten by rule (a) wherever
  it stands in the file, so that the text after rule (a) contains
  \<^verbatim>\<open>Logger.d(tag, 'Error in <method>: $e');\<close> and rule (c) never sees the statement.
  For a file that is this statement alone (with no \<^verbatim>\<open>print(\<close> in the tag or in
  \<^verbatim>\<open><method>\<close>) the output of the seven rules is exactly that \<^verbatim>\<open>Logger.d\<close> call.
\<close>

theorem error_print_rewritten_by_rule_a:
  assumes "sq \<notin> set meth"
    and "backslash \<notin> set log_tag"
  shows "str_contains (logger_call ''d'' log_tag @ ''Error in '' @ meth @ '': $e'' @ close_sq)
           (re_sub pat_a (tmpl_d log_tag)
              (pre @ print_debug @ ''Error in '' @ meth @ '': $e'' @ close_sq @ post))
         \<and> (\<not> str_contains ''print('' log_tag \<and> \<not> str_contains ''print('' meth \<longrightarrow>
              replace_prints log_tag (print_debug @ ''Error in '' @ meth @ '': $e'' @ close_sq)
                = logger_call ''d'' log_tag @ ''Error in '' @ meth @ '': $e'' @ close_sq)"
proof -
  let ?body = "''Error in '' @ meth @ '': $e''"
  have ne: "?body \<noteq> []"
    by simp
  have nq: "sq \<notin> set ?body"
    using assms(1) by (simp add: sq_def)
  have "sublist (logger_call ''d'' log_tag @ ?body @ close_sq)
          (re_sub pat_a (tmpl_d log_tag) (pre @ print_debug @ ?body @ close_sq @ post))"
    using ne nq by (rule rule_a_rewrites)
  then have 1: "str_contains (logger_call ''d'' log_tag @ ''Error in '' @ meth @ '': $e'' @ close_sq)
           (re_sub pat_a (tmpl_d log_tag)
              (pre @ print_debug @ ''Error in '' @ meth @ '': $e'' @ close_sq @ post))"
    by (simp add: str_contains_sublist)
  have 2: "replace_prints log_tag (print_debug @ ''Error in '' @ meth @ '': $e'' @ close_sq)
             = logger_call ''d'' log_tag @ ''Error in '' @ meth @ '': $e'' @ close_sq"
    if t: "\<not> str_contains ''print('' log_tag" and m: "\<not> str_contains ''print('' meth"
  proof -
    have "\<not> sublist ''print('' (meth @ CHR '':'' # '' $e'')"
      using m by (subst sublist_sep) (simp_all add: str_contains_sublist sublist_Cons_right)
    then have "\<not> sublist ''print('' (''Error in'' @ CHR '' '' # meth @ CHR '':'' # '' $e'')"
      by (subst sublist_sep) (simp_all add: sublist_Cons_right)
    then have "\<not> sublist ''print('' ?body"
      by simp
    moreover have "\<not> sublist ''print('' log_tag"
      using t by (simp add: str_contains_sublist)
    ultimately have "replace_prints log_tag (print_debug @ ?body @ close_sq)
                       = logger_call ''d'' log_tag @ ?body @ close_sq"
      using ne nq by (intro rule_a_alone)
    then show ?thesis by simp
  qed
  show ?thesis using 1 2 by blast
qed

theorem error_print_rewritten_by_rule_a_witness:
  "str_contains (logger_call ''d'' ''Main'' @ ''Error in '' @ ''save'' @ '': $e'' @ close_sq)
     (re_sub pat_a (tmpl_d ''Main'')
        (''  '' @ print_debug @ ''Error in '' @ ''save'' @ '': $e'' @ close_sq @ [nl]))
   \<and> replace_prints ''Main'' (print_debug @ ''Error in '' @ ''save'' @ '': $e'' @ close_sq)
       = logger_call ''d'' ''Main'' @ ''Error in '' @ ''save'' @ '': $e'' @ close_sq"
proof -
  have q: "sq \<notin> set ''save''"
    by code_simp
  have b: "backslash \<notin> set ''Main''"
    by code_simp
  have t: "\<not> str_contains ''print('' ''Main''"
    by code_simp
  have m: "\<not> str_contains ''print('' ''save''"
    by code_simp
  note r = error_print_rewritten_by_rule_a
    [where meth = "''save''" and log_tag = "''Main''" and pre = "''  ''" and post = "[nl]",
     OF q b]
  from r t m show ?thesis
    by blast
qed

text \<open>
  C1: the text \<^verbatim>\<open>print('DEBUG: Error in save: $e');\<close> is to become
  \<^verbatim>\<open>Logger.e(tag, 'Error in save', e);\<close>, which is what rule (c) and the comment above
  it in the script say. On a file \<^verbatim>\<open>lib/services/storage_service.dart\<close> that holds this
  statement, the processing gives \<^verbatim>\<open>Logger.d('StorageService', 'Error in save: $e');\<close>
  instead, and the output has no \<^verbatim>\<open>Logger.e\<close> call: rule (a) is applied before rule (c)
  and matches the statement.
\<close>

theorem error_print_becomes_debug_call:
  "str_contains stmt_error_in_save stmt_error_in_save
   \<and> get_log_tag_from_path ''lib/services/storage_service.dart'' = ''StorageService''
   \<and> process_content ''StorageService'' stmt_error_in_save
       = ''Logger.d('StorageService', 'Error in save: $e');''
   \<and> \<not> str_contains ''Logger.e('StorageService', 'Error in save', e);''
         (process_content ''StorageService'' stmt_error_in_save)"
  by code_simp

end
